theory Spec2Isabelle
  imports Main
begin

section \<open>Syntax nodes\<close>

text \<open>
  The compiler reads Python syntax trees. Only the node classes that the Pass state and
  the resource decorators inspect are represented. Numeric literals are integers:
  floating-point and complex literals are outside the model.
\<close>

datatype const = CNone | CBool bool | CInt int | CStr string | CBytes string | CEllipsis

datatype unaryop = UAdd | USub | Invert | UNot

datatype operator = Add | Sub | Mult | Div

datatype expr =
    Constant const
  | Name string
  | Tuple "expr list"
  | List "expr list"
  | Set "expr list"
  | Dict "expr option list" "expr list"
  | UnaryOp unaryop expr
  | BinOp expr operator expr
  | Call expr "expr list" "(string \<times> expr) list"
  | Subscript expr expr
  | Attribute expr string

text \<open>
  Statement nodes a Pass state can originate from: the bare \<open>pass\<close>, an assignment
  (\<open>targets\<close>, \<open>value\<close>), an augmented assignment (\<open>target\<close>, \<open>op\<close>, \<open>value\<close>) and an
  expression statement (\<open>value\<close>).
\<close>

datatype ast_node =
    Pass
  | Assign "expr list" expr
  | AugAssign expr operator expr
  | Expr expr

datatype syntax_node = StmtNode ast_node | ExprNode expr

section \<open>Errors\<close>

text \<open>
  \<open>UnsupportedOperation\<close> is the compiler's own exception (message and offending node).
  The others are the Python and networkx exceptions that the modelled code can raise.
\<close>

datatype error =
    UnsupportedOperation string syntax_node
  | NetworkXError
  | KeyError
  | IndexError
  | AttributeError

text \<open>
  Modelled from the spec: \<open>assert_supported_operation\<close> lives in the exceptions module,
  which is not part of the sources at hand. Section 7 of the specification gives one error
  kind, carrying a message and the offending node, raised as soon as a check fails.
\<close>

definition assert_supported_operation :: "bool \<Rightarrow> string \<Rightarrow> syntax_node \<Rightarrow> error + unit" where
  "assert_supported_operation cond msg node =
     (if cond then Inr () else Inl (UnsupportedOperation msg node))"

section \<open>Python values\<close>

datatype pyval =
    PyNone
  | PyBool bool
  | PyInt int
  | PyStr string
  | PyBytes string
  | PyEllipsis
  | PyList "pyval list"
  | PyTuple "pyval list"
  | PySet "pyval list"
  | PyDict "(pyval \<times> pyval) list"

text \<open>Hashability: lists, sets and dicts cannot be dict keys or set members.\<close>

fun py_hashable :: "pyval \<Rightarrow> bool" where
  "py_hashable (PyList xs) = False"
| "py_hashable (PySet xs) = False"
| "py_hashable (PyDict kvs) = False"
| "py_hashable (PyTuple xs) = list_all py_hashable xs"
| "py_hashable v = True"

text \<open>Python's \<open>==\<close> on hashable values: \<open>True == 1\<close> and \<open>False == 0\<close>.\<close>

fun py_num :: "pyval \<Rightarrow> int option" where
  "py_num (PyBool b) = Some (if b then 1 else 0)"
| "py_num (PyInt i) = Some i"
| "py_num v = None"

fun py_eq :: "pyval \<Rightarrow> pyval \<Rightarrow> bool"
  and py_eq_list :: "pyval list \<Rightarrow> pyval list \<Rightarrow> bool" where
  "py_eq v w =
     (case v of
        PyTuple xs \<Rightarrow> (case w of PyTuple ys \<Rightarrow> py_eq_list xs ys | _ \<Rightarrow> False)
      | _ \<Rightarrow>
        (case w of
           PyTuple ys \<Rightarrow> False
         | _ \<Rightarrow>
           (case (py_num v, py_num w) of
              (Some i, Some j) \<Rightarrow> i = j
            | (Some i, None) \<Rightarrow> False
            | (None, Some j) \<Rightarrow> False
            | (None, None) \<Rightarrow> v = w)))"
| "py_eq_list [] [] = True"
| "py_eq_list (x # xs) (y # ys) = (py_eq x y \<and> py_eq_list xs ys)"
| "py_eq_list [] (y # ys) = False"
| "py_eq_list (x # xs) [] = False"

text \<open>
  \<open>d[k] = v\<close> on an insertion-ordered dict: an equal key keeps its place (and the key
  object first inserted), a new key goes to the end.
\<close>

fun dict_setitem :: "(pyval \<times> pyval) list \<Rightarrow> pyval \<Rightarrow> pyval \<Rightarrow> (pyval \<times> pyval) list" where
  "dict_setitem [] k v = [(k, v)]"
| "dict_setitem ((k', v') # kvs) k v =
     (if py_eq k' k then (k', v) # kvs else (k', v') # dict_setitem kvs k v)"

text \<open>\<open>dict(pairs)\<close>: \<open>None\<close> stands for the \<open>TypeError\<close> of an unhashable key.\<close>

fun dict_of_pairs :: "(pyval \<times> pyval) list \<Rightarrow> (pyval \<times> pyval) list \<Rightarrow> (pyval \<times> pyval) list option" where
  "dict_of_pairs acc [] = Some acc"
| "dict_of_pairs acc ((k, v) # kvs) =
     (if py_hashable k then dict_of_pairs (dict_setitem acc k v) kvs else None)"

text \<open>
  \<open>set(items)\<close>: the members are kept in first-insertion order. Python's iteration order of
  a set depends on hashes; no function below looks at the order.
\<close>

fun set_of_items :: "pyval list \<Rightarrow> pyval list \<Rightarrow> pyval list option" where
  "set_of_items acc [] = Some acc"
| "set_of_items acc (x # xs) =
     (if py_hashable x
      then set_of_items (if list_ex (\<lambda>y. py_eq y x) acc then acc else acc @ [x]) xs
      else None)"

section \<open>\<open>ast.literal_eval\<close> and \<open>json.dumps\<close>\<close>

text \<open>
  \<open>_parse_result\<close> prints the value node with \<open>astor.to_source\<close> and hands the text to
  \<open>ast.literal_eval\<close>, which parses it again. Printing and parsing are taken to give the
  node back, so \<open>literal_eval\<close> works on the node. \<open>None\<close> stands for the exception
  (\<open>ValueError\<close> for a malformed node, \<open>TypeError\<close> for an unhashable key).
\<close>

fun const_value :: "const \<Rightarrow> pyval" where
  "const_value CNone = PyNone"
| "const_value (CBool b) = PyBool b"
| "const_value (CInt i) = PyInt i"
| "const_value (CStr s) = PyStr s"
| "const_value (CBytes s) = PyBytes s"
| "const_value CEllipsis = PyEllipsis"

text \<open>\<open>_convert_num\<close>: a constant whose type is a number type (\<open>bool\<close> is not one).\<close>

fun convert_num :: "expr \<Rightarrow> pyval option" where
  "convert_num (Constant (CInt i)) = Some (PyInt i)"
| "convert_num e = None"

fun convert_signed_num :: "expr \<Rightarrow> pyval option" where
  "convert_signed_num (UnaryOp UAdd operand) = convert_num operand"
| "convert_signed_num (UnaryOp USub operand) =
     (case convert_num operand of Some (PyInt i) \<Rightarrow> Some (PyInt (- i)) | _ \<Rightarrow> None)"
| "convert_signed_num e = convert_num e"

fun convert :: "expr \<Rightarrow> pyval option"
  and convert_list :: "expr list \<Rightarrow> pyval list option"
  and convert_keys :: "expr option list \<Rightarrow> pyval list option" where
  "convert (Constant c) = Some (const_value c)"
| "convert (Tuple elts) = map_option PyTuple (convert_list elts)"
| "convert (List elts) = map_option PyList (convert_list elts)"
| "convert (Set elts) =
     (case convert_list elts of
        None \<Rightarrow> None
      | Some vs \<Rightarrow> map_option PySet (set_of_items [] vs))"
| "convert (Call func args keywords) =
     (if func = Name ''set'' \<and> args = [] \<and> keywords = [] then Some (PySet []) else None)"
| "convert (Dict keys vals) =
     (if length keys \<noteq> length vals then None
      else case convert_keys keys of
        None \<Rightarrow> None
      | Some ks \<Rightarrow>
          (case convert_list vals of
             None \<Rightarrow> None
           | Some vs \<Rightarrow> map_option PyDict (dict_of_pairs [] (zip ks vs))))"
| "convert (BinOp left op right) = None"
| "convert (UnaryOp op operand) = convert_signed_num (UnaryOp op operand)"
| "convert (Name n) = None"
| "convert (Subscript v s) = None"
| "convert (Attribute v a) = None"
| "convert_list [] = Some []"
| "convert_list (e # es) =
     (case convert e of
        None \<Rightarrow> None
      | Some v \<Rightarrow> map_option ((#) v) (convert_list es))"
| "convert_keys [] = Some []"
| "convert_keys (None # ks) = None"
| "convert_keys (Some e # ks) =
     (case convert e of
        None \<Rightarrow> None
      | Some v \<Rightarrow> map_option ((#) v) (convert_keys ks))"

definition literal_eval :: "expr \<Rightarrow> pyval option" where
  "literal_eval node = convert node"

text \<open>
  \<open>json.dumps\<close> with its default arguments raises \<open>TypeError\<close> on bytes, sets and
  \<open>Ellipsis\<close>, and on a dict key that is not a string, a number, a boolean or \<open>None\<close>.
\<close>

fun json_key :: "pyval \<Rightarrow> bool" where
  "json_key PyNone = True"
| "json_key (PyBool b) = True"
| "json_key (PyInt i) = True"
| "json_key (PyStr s) = True"
| "json_key v = False"

fun json_dumps_ok :: "pyval \<Rightarrow> bool" where
  "json_dumps_ok PyNone = True"
| "json_dumps_ok (PyBool b) = True"
| "json_dumps_ok (PyInt i) = True"
| "json_dumps_ok (PyStr s) = True"
| "json_dumps_ok (PyList xs) = list_all json_dumps_ok xs"
| "json_dumps_ok (PyTuple xs) = list_all json_dumps_ok xs"
| "json_dumps_ok (PyDict kvs) =
     list_all (\<lambda>kv. json_key (fst kv) \<and> json_dumps_ok (snd kv)) kvs"
| "json_dumps_ok v = False"

section \<open>States and the state graph\<close>

text \<open>
  A state holds its originating statement; \<open>name\<close> stands for the identity of the state
  object (the specification derives it from the statement's position and context).
\<close>

record state =
  name :: string
  ast_node :: ast_node

text \<open>
  The state graph is a networkx \<open>DiGraph\<close>: a directed graph with at most one edge
  per ordered pair of nodes, each edge carrying a dict of attributes. \<open>nodes\<close> is in
  insertion order. \<open>edges\<close> is in the order in which the edges were first added, so the
  successors of a node (networkx \<open>G[u]\<close>) and its incoming edges (\<open>G.in_edges(v)\<close>) come
  out of it in the order networkx iterates them.
\<close>

type_synonym 'v attrs = "string \<rightharpoonup> 'v"

record 'v graph =
  nodes :: "state list"
  edges :: "(state \<times> state \<times> 'v attrs) list"

definition edge_attrs :: "'v graph \<Rightarrow> state \<Rightarrow> state \<Rightarrow> 'v attrs option" where
  "edge_attrs g u v = map_of (map (\<lambda>e. ((fst e, fst (snd e)), snd (snd e))) (edges g)) (u, v)"

definition has_edge :: "'v graph \<Rightarrow> state \<Rightarrow> state \<Rightarrow> bool" where
  "has_edge g u v = list_ex (\<lambda>e. fst e = u \<and> fst (snd e) = v) (edges g)"

definition out_edges :: "'v graph \<Rightarrow> state \<Rightarrow> (state \<times> state \<times> 'v attrs) list" where
  "out_edges g u = filter (\<lambda>e. fst e = u) (edges g)"

text \<open>\<open>list(G.in_edges(v))\<close>: the incoming edges as pairs.\<close>

definition in_edges :: "'v graph \<Rightarrow> state \<Rightarrow> (state \<times> state) list" where
  "in_edges g v = map (\<lambda>e. (fst e, fst (snd e))) (filter (\<lambda>e. fst (snd e) = v) (edges g))"

text \<open>\<open>G[u]\<close>: the successors of a node; a \<open>KeyError\<close> for a node that is not in the graph.\<close>

definition successors :: "'v graph \<Rightarrow> state \<Rightarrow> error + state list" where
  "successors g u =
     (if u \<in> set (nodes g) then Inr (map (\<lambda>e. fst (snd e)) (out_edges g u)) else Inl KeyError)"

definition add_node :: "'v graph \<Rightarrow> state \<Rightarrow> 'v graph" where
  "add_node g u = (if u \<in> set (nodes g) then g else g\<lparr>nodes := nodes g @ [u]\<rparr>)"

text \<open>
  \<open>G.add_edge(u, v, **attr)\<close> adds missing end points; the attributes update the dict of
  an edge that is already there, and a new edge gets a fresh dict updated with them.
\<close>

definition add_edge :: "'v graph \<Rightarrow> state \<Rightarrow> state \<Rightarrow> 'v attrs \<Rightarrow> 'v graph" where
  "add_edge g u v attr =
     (let g1 = add_node (add_node g u) v in
      if has_edge g1 u v
      then g1\<lparr>edges := map (\<lambda>e. if fst e = u \<and> fst (snd e) = v
                                   then (u, v, snd (snd e) ++ attr) else e) (edges g1)\<rparr>
      else g1\<lparr>edges := edges g1 @ [(u, v, Map.empty ++ attr)]\<rparr>)"

text \<open>\<open>G.remove_edge(u, v)\<close> raises \<open>NetworkXError\<close> when there is no such edge.\<close>

definition remove_edge :: "'v graph \<Rightarrow> state \<Rightarrow> state \<Rightarrow> error + 'v graph" where
  "remove_edge g u v =
     (if has_edge g u v
      then Inr (g\<lparr>edges := filter (\<lambda>e. \<not> (fst e = u \<and> fst (snd e) = v)) (edges g)\<rparr>)
      else Inl NetworkXError)"

text \<open>
  \<open>G.remove_node(n)\<close> removes the node and every edge at it, and raises
  \<open>NetworkXError\<close> for a node that is not in the graph.
\<close>

definition remove_node :: "'v graph \<Rightarrow> state \<Rightarrow> error + 'v graph" where
  "remove_node g n =
     (if n \<in> set (nodes g)
      then Inr (g\<lparr>nodes := filter (\<lambda>m. m \<noteq> n) (nodes g),
                   edges := filter (\<lambda>e. fst e \<noteq> n \<and> fst (snd e) \<noteq> n) (edges g)\<rparr>)
      else Inl NetworkXError)"

text \<open>
  Modelled from the spec: the \<open>edges\<close> property of the base class \<open>State\<close> is not part
  of the sources at hand. Section 3 of the specification gives every state node its
  ordered sequence of outgoing edges.
\<close>

definition state_edges :: "'v graph \<Rightarrow> state \<Rightarrow> (state \<times> state \<times> 'v attrs) list" where
  "state_edges g s = out_edges g s"

section \<open>\<open>PassState.shape\<close>\<close>

text \<open>
  The inner loop of \<open>shape\<close>, over the snapshot \<open>list(G.in_edges(self))\<close>: the attributes
  are read from the graph as it is at that moment, the edge is noted for removal and the
  upstream state is pointed at \<open>next_state\<close>.
\<close>

fun shape_inner ::
  "state \<Rightarrow> (state \<times> state) list \<Rightarrow> 'v graph \<times> (state \<times> state) list
     \<Rightarrow> error + 'v graph \<times> (state \<times> state) list" where
  "shape_inner next_state [] (g, edges_to_remove) = Inr (g, edges_to_remove)"
| "shape_inner next_state (edge # rest) (g, edges_to_remove) =
     (case edge_attrs g (fst edge) (snd edge) of
        None \<Rightarrow> Inl KeyError
      | Some attrs \<Rightarrow>
          shape_inner next_state rest
            (add_edge g (fst edge) next_state attrs, edges_to_remove @ [edge]))"

text \<open>
  The outer loop, over the successors of the state. The loop body adds edges only to
  nodes that are successors of an upstream state already, or of the state itself when it
  has a self-loop, in which case the edge is there already: the successors of the state
  do not change while the loop runs, and the list taken at its start is what Python
  iterates. The incoming edges are listed anew for every successor, as in the source.
\<close>

fun shape_outer ::
  "state \<Rightarrow> state list \<Rightarrow> 'v graph \<times> (state \<times> state) list
     \<Rightarrow> error + 'v graph \<times> (state \<times> state) list" where
  "shape_outer self [] acc = Inr acc"
| "shape_outer self (next_state # rest) acc =
     (case shape_inner next_state (in_edges (fst acc) self) acc of
        Inl e \<Rightarrow> Inl e
      | Inr acc' \<Rightarrow> shape_outer self rest acc')"

fun remove_edges :: "'v graph \<Rightarrow> (state \<times> state) list \<Rightarrow> error + 'v graph" where
  "remove_edges g [] = Inr g"
| "remove_edges g (edge # rest) =
     (case remove_edge g (fst edge) (snd edge) of
        Inl e \<Rightarrow> Inl e
      | Inr g' \<Rightarrow> remove_edges g' rest)"

definition shape :: "'v graph \<Rightarrow> state \<Rightarrow> error + 'v graph" where
  "shape g self =
     (if ast_node self \<noteq> Pass \<or> length (state_edges g self) = 0 then Inr g
      else case successors g self of
        Inl e \<Rightarrow> Inl e
      | Inr succs \<Rightarrow>
          (case shape_outer self succs (g, []) of
             Inl e \<Rightarrow> Inl e
           | Inr (g1, edges_to_remove) \<Rightarrow>
               (case remove_edges g1 edges_to_remove of
                  Inl e \<Rightarrow> Inl e
                | Inr g2 \<Rightarrow> remove_node g2 self)))"

text \<open>
  Modelled from the spec: the driver of the shaping pass is not part of the sources at
  hand. Section 4.4 of the specification applies the elision once per graph, to each node
  of the graph; the nodes are taken as they are when the pass starts, and the first error
  ends the pass.
\<close>

fun shape_nodes :: "'v graph \<Rightarrow> state list \<Rightarrow> error + 'v graph" where
  "shape_nodes g [] = Inr g"
| "shape_nodes g (s # rest) =
     (case shape g s of
        Inl e \<Rightarrow> Inl e
      | Inr g' \<Rightarrow> shape_nodes g' rest)"

text \<open>
  Modelled from the spec: the shaping pass of section 4.4, which is not part of the sources
  at hand, over the nodes the graph has when the pass starts.
\<close>

definition shaping_pass :: "'v graph \<Rightarrow> error + 'v graph" where
  "shaping_pass g = shape_nodes g (nodes g)"

section \<open>Serializing a Pass state\<close>

text \<open>
  What \<open>pass_.py\<close> imports from the constants and util modules, which are not part of the
  sources at hand, is taken as a parameter: \<open>convert_input_data_ref\<close> (it may raise),
  the search for \<open>INVALID_RESULT_PATH_PATTERN\<close> in a path
  (\<open>re.search(INVALID_RESULT_PATH_PATTERN, path) is not None\<close>) and the tuple
  \<open>RESERVED_INPUT_DATA_KEYS\<close>.
\<close>

record env =
  convert_input_data_ref :: "expr \<Rightarrow> error + string"
  invalid_result_path :: "string \<Rightarrow> bool"
  RESERVED_INPUT_DATA_KEYS :: "string list"

text \<open>\<open>sep.join(xs)\<close>\<close>

fun join :: "string \<Rightarrow> string list \<Rightarrow> string" where
  "join sep [] = []"
| "join sep [x] = x"
| "join sep (x # y # ys) = x @ sep @ join sep (y # ys)"

text \<open>
  The node whose source \<open>_parse_result\<close> evaluates: the value of an assignment; for any
  other node with a \<open>value\<close> attribute, \<open>value.args[0]\<close> (an \<open>AttributeError\<close> when the
  value is no call, an \<open>IndexError\<close> when the call has no positional argument); the
  text \<open>{}\<close> otherwise.
\<close>

fun result_source :: "ast_node \<Rightarrow> error + expr" where
  "result_source (Assign targets val) = Inr val"
| "result_source (AugAssign target op (Call func args keywords)) =
     (case args of [] \<Rightarrow> Inl IndexError | a # _ \<Rightarrow> Inr a)"
| "result_source (AugAssign target op val) = Inl AttributeError"
| "result_source (Expr (Call func args keywords)) =
     (case args of [] \<Rightarrow> Inl IndexError | a # _ \<Rightarrow> Inr a)"
| "result_source (Expr val) = Inl AttributeError"
| "result_source Pass = Inr (Dict [] [])"

definition parse_result :: "state \<Rightarrow> error + pyval" where
  "parse_result self =
     (case result_source (ast_node self) of
        Inl e \<Rightarrow> Inl e
      | Inr source \<Rightarrow>
          (case literal_eval source of
             None \<Rightarrow>
               Inl (UnsupportedOperation
                 ''Only JSON-serializeable values can be used to update the data object''
                 (StmtNode (ast_node self)))
           | Some result \<Rightarrow>
               if json_dumps_ok result then Inr result
               else Inl (UnsupportedOperation
                 ''Only JSON-serializeable values can be used to update the data object''
                 (StmtNode (ast_node self)))))"

definition parse_result_path :: "env \<Rightarrow> state \<Rightarrow> error + string" where
  "parse_result_path E self =
     (case ast_node self of
        Assign targets val \<Rightarrow>
          (case targets of
             [] \<Rightarrow> Inl IndexError
           | target # _ \<Rightarrow>
               (case convert_input_data_ref E target of
                  Inl e \<Rightarrow> Inl e
                | Inr result_path \<Rightarrow>
                    (case assert_supported_operation
                            (\<not> invalid_result_path E result_path)
                            (''Task result path is invalid. Check that it does not contain reserved''
                               @ '' keys: '' @ join '', '' (RESERVED_INPUT_DATA_KEYS E))
                            (StmtNode (ast_node self)) of
                       Inl e \<Rightarrow> Inl e
                     | Inr u \<Rightarrow> Inr result_path)))
      | _ \<Rightarrow> Inr ''$'')"

text \<open>
  Modelled from the spec: \<open>_set_end_or_next\<close> belongs to the base class \<open>State\<close>, which
  is not part of the sources at hand. Section 4.5 of the specification: a node with
  exactly one outgoing edge with empty attributes gets \<open>Next\<close>, the name of the successor;
  a node with no outgoing edge gets \<open>End: true\<close>. The specification gives a Pass state no
  linkage in any other case, and the dict is left as it is there.
\<close>

definition set_end_or_next :: "'v graph \<Rightarrow> state \<Rightarrow> (pyval \<times> pyval) list \<Rightarrow> (pyval \<times> pyval) list" where
  "set_end_or_next g self data =
     (case state_edges g self of
        [] \<Rightarrow> dict_setitem data (PyStr ''End'') (PyBool True)
      | [e] \<Rightarrow>
          if snd (snd e) = Map.empty
          then dict_setitem data (PyStr ''Next'') (PyStr (name (fst (snd e))))
          else data
      | _ \<Rightarrow> data)"

definition to_dict :: "env \<Rightarrow> 'v graph \<Rightarrow> state \<Rightarrow> error + (pyval \<times> pyval) list" where
  "to_dict E g self =
     (let data = [(PyStr ''Type'', PyStr ''Pass'')] in
      if ast_node self \<noteq> Pass
      then case parse_result self of
             Inl e \<Rightarrow> Inl e
           | Inr result \<Rightarrow>
               (case parse_result_path E self of
                  Inl e \<Rightarrow> Inl e
                | Inr result_path \<Rightarrow>
                    Inr (set_end_or_next g self
                          (dict_setitem (dict_setitem data (PyStr ''Result'') result)
                             (PyStr ''ResultPath'') (PyStr result_path))))
      else Inr (set_end_or_next g self data))"

section \<open>Resource decorators\<close>

text \<open>
  \<open>GET_VALUE_MAP\<close> (extractors by Python type) and the class \<open>CallableOption\<close> come from
  the util module, which is not part of the sources at hand. The extractors are taken as
  a parameter. A \<open>CallableOption\<close> holds what the table passes to it; \<open>default_value\<close> is
  \<open>None\<close> where the table passes none.
\<close>

record GET_VALUE_MAP =
  get_str :: "expr \<Rightarrow> error + string"
  get_bool :: "expr \<Rightarrow> error + bool"
  get_dict :: "expr \<Rightarrow> error + pyval"

definition get_subscribe_status :: "GET_VALUE_MAP \<Rightarrow> expr \<Rightarrow> error + string" where
  "get_subscribe_status G node =
     (case get_str G node of
        Inl e \<Rightarrow> Inl e
      | Inr val \<Rightarrow>
          (case assert_supported_operation
                  (val \<in> {''success'', ''failure''})
                  (''Status must be one of success|failure. Provided: '' @ val)
                  (ExprNode node) of
             Inl e \<Rightarrow> Inl e
           | Inr u \<Rightarrow> Inr val))"

datatype ast_class = ast_Name | ast_Str | ast_Dict

record CallableOption =
  value_type :: ast_class
  value_type_label :: string
  get_value :: "expr \<Rightarrow> error + pyval"
  default_value :: "pyval option"

record decorator_config =
  max_count :: "nat option"
  options :: "(string \<times> CallableOption) list"

definition RESOURCE_DECORATOR_MAP :: "GET_VALUE_MAP \<Rightarrow> (string \<times> decorator_config) list" where
  "RESOURCE_DECORATOR_MAP G =
     [(''export'',
        \<lparr>max_count = Some 1,
         options =
           [(''enabled'',
              \<lparr>value_type = ast_Name, value_type_label = ''boolean'',
               get_value = (\<lambda>n. map_sum id PyBool (get_bool G n)),
               default_value = Some (PyBool True)\<rparr>)]\<rparr>),
      (''schedule'',
        \<lparr>max_count = Some 1,
         options =
           [(''expression'',
              \<lparr>value_type = ast_Str, value_type_label = ''string'',
               get_value = (\<lambda>n. map_sum id PyStr (get_str G n)),
               default_value = Some PyNone\<rparr>),
            (''input_data'',
              \<lparr>value_type = ast_Dict, value_type_label = ''dict'',
               get_value = get_dict G,
               default_value = Some PyNone\<rparr>)]\<rparr>),
      (''subscribe'',
        \<lparr>max_count = None,
         options =
           [(''topic_arn_import_value'',
              \<lparr>value_type = ast_Str, value_type_label = ''string'',
               get_value = (\<lambda>n. map_sum id PyStr (get_str G n)),
               default_value = None\<rparr>),
            (''project'',
              \<lparr>value_type = ast_Str, value_type_label = ''string'',
               get_value = (\<lambda>n. map_sum id PyStr (get_str G n)),
               default_value = None\<rparr>),
            (''state_machine'',
              \<lparr>value_type = ast_Str, value_type_label = ''string'',
               get_value = (\<lambda>n. map_sum id PyStr (get_str G n)),
               default_value = Some (PyStr ''main'')\<rparr>),
            (''status'',
              \<lparr>value_type = ast_Str, value_type_label = ''string'',
               get_value = (\<lambda>n. map_sum id PyStr (get_subscribe_status G n)),
               default_value = Some (PyStr ''success'')\<rparr>)]\<rparr>)]"

text \<open>
  Modelled from the spec: the decorator validator is not part of the sources at hand.
  Section 4.2 of the specification, per function: look the decorator up by name (an
  unknown name fails); fail when the applications of this name already seen equal or
  exceed \<open>max_count\<close>; look every keyword argument up by name (an unknown option fails),
  run the option's value-kind check on the argument's node, then its extractor; an option
  that is not supplied takes its default; the result is a decorator effect holding the
  resolved values. The value-kind check is a parameter, and so are the messages, which
  the specification does not give.
\<close>

record decorator_call =
  dec_name :: string
  dec_keywords :: "(string \<times> expr) list"
  dec_node :: expr

record DecoratorEffect =
  decorator_name :: string
  effect_values :: "(string \<times> pyval) list"
  origin :: expr

text \<open>
  Modelled from the spec: steps 3 and 4 of the validator of section 4.2 (absent from the
  sources at hand), over the keyword arguments in the order they are written.
\<close>

fun extract_options ::
  "(ast_class \<Rightarrow> expr \<Rightarrow> bool) \<Rightarrow> (string \<times> CallableOption) list \<Rightarrow> (string \<times> expr) list
     \<Rightarrow> error + (string \<times> pyval) list" where
  "extract_options kind_ok opts [] = Inr []"
| "extract_options kind_ok opts ((k, node) # rest) =
     (case map_of opts k of
        None \<Rightarrow> Inl (UnsupportedOperation (''Unknown option: '' @ k) (ExprNode node))
      | Some opt \<Rightarrow>
          if \<not> kind_ok (value_type opt) node
          then Inl (UnsupportedOperation
                 (''Option '' @ k @ '' must be a '' @ value_type_label opt) (ExprNode node))
          else (case get_value opt node of
                  Inl e \<Rightarrow> Inl e
                | Inr v \<Rightarrow>
                    (case extract_options kind_ok opts rest of
                       Inl e \<Rightarrow> Inl e
                     | Inr vs \<Rightarrow> Inr ((k, v) # vs))))"

text \<open>
  Modelled from the spec: step 5 of the validator of section 4.2 (absent from the sources at
  hand). An option that is not supplied takes its default; an option without a default is
  left out of the values.
\<close>

definition resolve_values ::
  "(string \<times> CallableOption) list \<Rightarrow> (string \<times> pyval) list \<Rightarrow> (string \<times> pyval) list" where
  "resolve_values opts supplied =
     List.map_filter
       (\<lambda>ko. case map_of supplied (fst ko) of
                Some v \<Rightarrow> Some (fst ko, v)
              | None \<Rightarrow> map_option (Pair (fst ko)) (default_value (snd ko)))
       opts"

text \<open>
  Modelled from the spec: steps 1, 2 and 6 of the validator of section 4.2 (absent from the
  sources at hand) for one application; \<open>seen\<close> counts the applications of the same
  decorator already validated on the function.
\<close>

definition validate_decorator ::
  "(ast_class \<Rightarrow> expr \<Rightarrow> bool) \<Rightarrow> (string \<times> decorator_config) list \<Rightarrow> nat \<Rightarrow> decorator_call
     \<Rightarrow> error + DecoratorEffect" where
  "validate_decorator kind_ok registry seen call =
     (case map_of registry (dec_name call) of
        None \<Rightarrow>
          Inl (UnsupportedOperation (''Unknown decorator: '' @ dec_name call)
                 (ExprNode (dec_node call)))
      | Some config \<Rightarrow>
          if (case max_count config of None \<Rightarrow> False | Some m \<Rightarrow> m \<le> seen)
          then Inl (UnsupportedOperation (''Too many decorators: '' @ dec_name call)
                      (ExprNode (dec_node call)))
          else (case extract_options kind_ok (options config) (dec_keywords call) of
                  Inl e \<Rightarrow> Inl e
                | Inr supplied \<Rightarrow>
                    Inr \<lparr>decorator_name = dec_name call,
                         effect_values = resolve_values (options config) supplied,
                         origin = dec_node call\<rparr>))"

text \<open>
  Modelled from the spec: the validator of section 4.2 (absent from the sources at hand)
  over the decorators of one function, stopping at the first failure.
\<close>

fun validate_decorators ::
  "(ast_class \<Rightarrow> expr \<Rightarrow> bool) \<Rightarrow> (string \<times> decorator_config) list \<Rightarrow> string list
     \<Rightarrow> decorator_call list \<Rightarrow> error + DecoratorEffect list" where
  "validate_decorators kind_ok registry seen [] = Inr []"
| "validate_decorators kind_ok registry seen (call # rest) =
     (case validate_decorator kind_ok registry (count_list seen (dec_name call)) call of
        Inl e \<Rightarrow> Inl e
      | Inr effect \<Rightarrow>
          (case validate_decorators kind_ok registry (seen @ [dec_name call]) rest of
             Inl e \<Rightarrow> Inl e
           | Inr effects \<Rightarrow> Inr (effect # effects)))"

definition is_unsupported :: "error + 'a \<Rightarrow> bool" where
  "is_unsupported r = (case r of Inl (UnsupportedOperation msg node) \<Rightarrow> True | _ \<Rightarrow> False)"

section \<open>Sample inputs\<close>

text \<open>
  Modelled from the spec: a concrete instance of what the util and constants modules
  provide, for evaluating the functions above on examples. Section 4.1 of the
  specification: an extractor accepts a literal of its kind and fails with
  \<open>UnsupportedOperation\<close> on any other node. The docstring of the Pass state turns
  \<open>data["foo"]\<close> into the path \<open>$['foo']\<close>. Section 4.5: a result path is invalid when it
  matches a reserved key without regard to case; the specification names \<open>Result\<close> and
  \<open>ResultPath\<close> as examples of reserved keys.
\<close>

definition lower :: "char \<Rightarrow> char" where
  "lower c =
     (case map_of (zip ''ABCDEFGHIJKLMNOPQRSTUVWXYZ'' ''abcdefghijklmnopqrstuvwxyz'') c of
        None \<Rightarrow> c
      | Some d \<Rightarrow> d)"

fun is_prefix :: "string \<Rightarrow> string \<Rightarrow> bool" where
  "is_prefix [] ys = True"
| "is_prefix (x # xs) [] = False"
| "is_prefix (x # xs) (y # ys) = (x = y \<and> is_prefix xs ys)"

fun contains :: "string \<Rightarrow> string \<Rightarrow> bool" where
  "contains [] sub = (sub = [])"
| "contains (c # cs) sub = (is_prefix sub (c # cs) \<or> contains cs sub)"

fun data_ref :: "expr \<Rightarrow> string option" where
  "data_ref (Name n) = (if n = ''data'' then Some ''$'' else None)"
| "data_ref (Subscript v (Constant (CStr k))) =
     map_option (\<lambda>p. p @ ''['' @ [CHR 0x27] @ k @ [CHR 0x27] @ '']'') (data_ref v)"
| "data_ref e = None"

definition sample_env :: env where
  "sample_env =
     \<lparr>convert_input_data_ref =
        (\<lambda>t. case data_ref t of
                None \<Rightarrow> Inl (UnsupportedOperation ''Invalid data reference'' (ExprNode t))
              | Some p \<Rightarrow> Inr p),
      invalid_result_path =
        (\<lambda>p. list_ex (\<lambda>k. contains (map lower p) (map lower ([CHR 0x27] @ k @ [CHR 0x27])))
                [''Result'', ''ResultPath'']),
      RESERVED_INPUT_DATA_KEYS = [''Result'', ''ResultPath'']\<rparr>"

definition literal_GET_VALUE_MAP :: GET_VALUE_MAP where
  "literal_GET_VALUE_MAP =
     \<lparr>get_str =
        (\<lambda>n. case n of
                Constant (CStr s) \<Rightarrow> Inr s
              | _ \<Rightarrow> Inl (UnsupportedOperation ''Value must be a string'' (ExprNode n))),
      get_bool =
        (\<lambda>n. case n of
                Constant (CBool b) \<Rightarrow> Inr b
              | _ \<Rightarrow> Inl (UnsupportedOperation ''Value must be a boolean'' (ExprNode n))),
      get_dict =
        (\<lambda>n. case n of
                Dict ks vs \<Rightarrow>
                  (case literal_eval n of
                     Some v \<Rightarrow> Inr v
                   | None \<Rightarrow> Inl (UnsupportedOperation ''Value must be a dict'' (ExprNode n)))
              | _ \<Rightarrow> Inl (UnsupportedOperation ''Value must be a dict'' (ExprNode n)))\<rparr>"

definition data_x :: expr where
  "data_x = Subscript (Name ''data'') (Constant (CStr ''x''))"

definition data_Result :: expr where
  "data_Result = Subscript (Name ''data'') (Constant (CStr ''Result''))"

definition data_foo_bar :: expr where
  "data_foo_bar =
     Subscript (Subscript (Name ''data'') (Constant (CStr ''foo''))) (Constant (CStr ''bar''))"

definition data_y :: expr where
  "data_y = Subscript (Name ''data'') (Constant (CStr ''y''))"

text \<open>
  The statements \<open>data["x"] = 1\<close>, \<open>data["y"] = {"a": 2}\<close>, \<open>data["z"] = None\<close>,
  \<open>data.update({"k": [1, -2]})\<close> and two \<open>pass\<close> statements, as states.
\<close>

definition st_x :: state where
  "st_x = \<lparr>name = ''x'', ast_node = Assign [data_x] (Constant (CInt 1))\<rparr>"

definition st_y :: state where
  "st_y = \<lparr>name = ''y'',
           ast_node = Assign [data_y] (Dict [Some (Constant (CStr ''a''))] [Constant (CInt 2)])\<rparr>"

definition st_z :: state where
  "st_z = \<lparr>name = ''z'',
           ast_node = Assign [Subscript (Name ''data'') (Constant (CStr ''z''))] (Constant CNone)\<rparr>"

definition st_update :: state where
  "st_update =
     \<lparr>name = ''u'',
      ast_node = Expr (Call (Attribute (Name ''data'') ''update'')
                   [Dict [Some (Constant (CStr ''k''))]
                      [List [Constant (CInt 1), UnaryOp USub (Constant (CInt 2))]]] [])\<rparr>"

definition st_p :: state where
  "st_p = \<lparr>name = ''p'', ast_node = Pass\<rparr>"

definition st_q :: state where
  "st_q = \<lparr>name = ''q'', ast_node = Pass\<rparr>"

text \<open>The statements \<open>data["a"] = 1\<close>, \<open>data["b"] = 2\<close> and \<open>data["c"] = 3\<close>, as states.\<close>

definition st_a :: state where
  "st_a = \<lparr>name = ''a'',
           ast_node = Assign [Subscript (Name ''data'') (Constant (CStr ''a''))] (Constant (CInt 1))\<rparr>"

definition st_b :: state where
  "st_b = \<lparr>name = ''b'',
           ast_node = Assign [Subscript (Name ''data'') (Constant (CStr ''b''))] (Constant (CInt 2))\<rparr>"

definition st_c :: state where
  "st_c = \<lparr>name = ''c'',
           ast_node = Assign [Subscript (Name ''data'') (Constant (CStr ''c''))] (Constant (CInt 3))\<rparr>"

definition no_attrs :: "pyval attrs" where
  "no_attrs = Map.empty"

text \<open>\<open>x \<rightarrow> y\<close> and \<open>u \<rightarrow> p\<close>, where \<open>p\<close> ends its branch.\<close>

definition g_serialize :: "pyval graph" where
  "g_serialize =
     \<lparr>nodes = [st_x, st_y, st_update, st_p],
      edges = [(st_x, st_y, no_attrs), (st_update, st_p, no_attrs)]\<rparr>"

text \<open>
  \<open>x \<rightarrow> p \<rightarrow> q \<rightarrow> y\<close> with a branch condition on the first edge, and the graph that
  is left when \<open>p\<close> and \<open>q\<close> are elided.
\<close>

definition cond_attrs :: "pyval attrs" where
  "cond_attrs = [''condition'' \<mapsto> PyStr ''c'']"

definition g_chain :: "pyval graph" where
  "g_chain =
     \<lparr>nodes = [st_x, st_p, st_q, st_y],
      edges = [(st_x, st_p, cond_attrs), (st_p, st_q, no_attrs), (st_q, st_y, no_attrs)]\<rparr>"

definition g_chain_shaped :: "pyval graph" where
  "g_chain_shaped = \<lparr>nodes = [st_x, st_y], edges = [(st_x, st_y, cond_attrs)]\<rparr>"

text \<open>\<open>x \<rightarrow> p\<close>, \<open>p \<rightarrow> y\<close> and \<open>p \<rightarrow> z\<close>: a \<open>pass\<close> node with two outgoing edges.\<close>

definition g_two_exits :: "pyval graph" where
  "g_two_exits =
     \<lparr>nodes = [st_x, st_p, st_y, st_z],
      edges = [(st_x, st_p, cond_attrs), (st_p, st_y, no_attrs), (st_p, st_z, no_attrs)]\<rparr>"

text \<open>
  The chain \<open>x \<rightarrow> p \<rightarrow> y\<close> with a branch condition on its first edge, and apart from it
  \<open>a \<rightarrow> q\<close>, \<open>q \<rightarrow> b\<close> and \<open>q \<rightarrow> c\<close>, where the \<open>pass\<close> node \<open>q\<close> has two outgoing edges.
\<close>

definition g_detour :: "pyval graph" where
  "g_detour =
     \<lparr>nodes = [st_x, st_p, st_y, st_a, st_q, st_b, st_c],
      edges = [(st_x, st_p, cond_attrs), (st_p, st_y, no_attrs),
               (st_a, st_q, no_attrs), (st_q, st_b, no_attrs), (st_q, st_c, no_attrs)]\<rparr>"

section \<open>Well-formed graphs and elision\<close>

text \<open>The edges of a graph as pairs of end points, in the order of \<open>edges\<close>.\<close>

definition pairs :: "'v graph \<Rightarrow> (state \<times> state) list" where
  "pairs g = map (\<lambda>e. (fst e, fst (snd e))) (edges g)"

text \<open>
  What a networkx \<open>DiGraph\<close> guarantees: a node is stored once, the end points of an
  edge are nodes, and there is one edge at most from one node to another.
\<close>

definition wf_graph :: "'v graph \<Rightarrow> bool" where
  "wf_graph g =
     (distinct (nodes g)
      \<and> list_all (\<lambda>p. fst p \<in> set (nodes g) \<and> snd p \<in> set (nodes g)) (pairs g)
      \<and> distinct (pairs g))"

text \<open>
  Section 4.4 of the specification: a Pass node is elidable when its originating statement
  is the no-op marker and it has at least one outgoing edge.
\<close>

definition elidable :: "'v graph \<Rightarrow> state \<Rightarrow> bool" where
  "elidable g s = (ast_node s = Pass \<and> out_edges g s \<noteq> [])"

text \<open>Every node that originates from \<open>pass\<close> has one outgoing edge at most.\<close>

definition single_exit :: "'v graph \<Rightarrow> bool" where
  "single_exit g =
     list_all (\<lambda>s. ast_node s \<noteq> Pass \<or> length (out_edges g s) \<le> 1) (nodes g)"

text \<open>
  The graph after the inner loop of \<open>shape\<close> has run over the incoming edges \<open>es\<close> for
  the successor \<open>n\<close>, when every edge of \<open>es\<close> is in the graph.
\<close>

fun inner_graph :: "state \<Rightarrow> (state \<times> state) list \<Rightarrow> 'v graph \<Rightarrow> 'v graph" where
  "inner_graph n [] g = g"
| "inner_graph n (e # es) g =
     inner_graph n es
       (add_edge g (fst e) n
          (case edge_attrs g (fst e) (snd e) of None \<Rightarrow> Map.empty | Some a \<Rightarrow> a))"

text \<open>The graph after \<open>shape\<close> has elided a node \<open>s\<close> whose only successor is \<open>n\<close>.\<close>

definition elide :: "'v graph \<Rightarrow> state \<Rightarrow> state \<Rightarrow> 'v graph" where
  "elide g s n =
     \<lparr>nodes = filter (\<lambda>m. m \<noteq> s) (nodes g),
      edges = filter (\<lambda>e. fst e \<noteq> s \<and> fst (snd e) \<noteq> s)
                (edges (inner_graph n (in_edges g s) g))\<rparr>"

text \<open>
  A chain \<open>x \<rightarrow> c\<^sub>1 \<rightarrow> \<dots> \<rightarrow> c\<^sub>k \<rightarrow> b\<close>: every \<open>c\<^sub>i\<close> originates from \<open>pass\<close> and has
  the node before it as its only predecessor, and the last node of the chain is the only
  predecessor of \<open>b\<close>.
\<close>

fun link :: "'v graph \<Rightarrow> state \<Rightarrow> state list \<Rightarrow> state \<Rightarrow> bool" where
  "link g x [] b = (in_edges g b = [(x, b)])"
| "link g x (c # cs) b = (in_edges g c = [(x, c)] \<and> ast_node c = Pass \<and> link g c cs b)"

text \<open>
  What holds of a chain from \<open>A\<close> to \<open>B\<close> while the shaping pass runs: the graph is
  well-formed, \<open>pass\<close> nodes have one successor at most, the nodes of \<open>cs\<close> that are still to
  be elided link \<open>A\<close> to \<open>B\<close>, \<open>A\<close> and \<open>B\<close> are retained, and the first edge of the
  chain carries the attributes \<open>a\<close>.
\<close>

definition chain_inv :: "'v graph \<Rightarrow> state \<Rightarrow> state list \<Rightarrow> state \<Rightarrow> 'v attrs \<Rightarrow> bool" where
  "chain_inv g A cs B a =
     (wf_graph g \<and> single_exit g \<and> link g A cs B \<and> distinct (cs @ [B])
      \<and> ast_node A \<noteq> Pass \<and> \<not> elidable g B
      \<and> edge_attrs g A (hd (cs @ [B])) = Some a
      \<and> A \<in> set (nodes g) \<and> B \<in> set (nodes g))"

section \<open>Facts about the graph operations\<close>

lemma in_edges_pairs: "in_edges g v = filter (\<lambda>p. snd p = v) (pairs g)"
  by (simp add: in_edges_def pairs_def filter_map comp_def)

lemma has_edge_pairs: "has_edge g u v \<longleftrightarrow> (u, v) \<in> set (pairs g)"
  unfolding has_edge_def pairs_def list_ex_iff by force

lemma out_edges_pairs: "map (\<lambda>e. (fst e, fst (snd e))) (out_edges g u) = filter (\<lambda>p. fst p = u) (pairs g)"
  by (simp add: out_edges_def pairs_def filter_map comp_def)


lemma out_edges_Nil_iff: "out_edges g u = [] \<longleftrightarrow> u \<notin> fst ` set (pairs g)"
  unfolding out_edges_def pairs_def filter_empty_conv by force

lemma length_out_edges: "length (out_edges g u) = length (filter (\<lambda>p. fst p = u) (pairs g))"
  using arg_cong [OF out_edges_pairs, of length g u] by simp

lemma edge_attrs_None_iff: "edge_attrs g u v = None \<longleftrightarrow> (u, v) \<notin> set (pairs g)"
  unfolding edge_attrs_def pairs_def map_of_eq_None_iff by force

lemma add_node_mem: "u \<in> set (nodes g) \<Longrightarrow> add_node g u = g"
  by (simp add: add_node_def)

lemma add_node_edges: "edges (add_node g u) = edges g"
  by (simp add: add_node_def)

lemma add_node_nodes: "set (nodes (add_node g u)) = insert u (set (nodes g))"
  by (auto simp: add_node_def)


lemma add_edge_has: "has_edge (add_node (add_node g u) v) x y = has_edge g x y"
  by (simp add: has_edge_def add_node_edges)

lemma upd_pairs:
  "map (\<lambda>e. (fst e, fst (snd e)))
     (map (\<lambda>e. if fst e = u \<and> fst (snd e) = v then (u, v, snd (snd e) ++ a) else e) xs)
   = map (\<lambda>e. (fst e, fst (snd e))) xs"
  by (induction xs) simp_all

lemma add_edge_pairs:
  "pairs (add_edge g u v a) = (if (u, v) \<in> set (pairs g) then pairs g else pairs g @ [(u, v)])"
proof (cases "has_edge g u v")
  case True
  then show ?thesis
    by (simp add: add_edge_def Let_def add_edge_has add_node_edges pairs_def upd_pairs
          has_edge_pairs [unfolded pairs_def])
next
  case False
  then show ?thesis
    by (simp add: add_edge_def Let_def add_edge_has add_node_edges pairs_def
          has_edge_pairs [unfolded pairs_def])
qed

lemma add_edge_edges_new:
  assumes "(u, v) \<notin> set (pairs g)"
  shows "edges (add_edge g u v a) = edges g @ [(u, v, a)]"
proof -
  have "\<not> has_edge g u v" using assms by (simp add: has_edge_pairs)
  then show ?thesis
    by (simp add: add_edge_def Let_def add_edge_has add_node_edges)
qed

lemma add_edge_nodes:
  "u \<in> set (nodes g) \<Longrightarrow> v \<in> set (nodes g) \<Longrightarrow> nodes (add_edge g u v a) = nodes g"
  by (simp add: add_edge_def add_node_mem Let_def)


lemma upd_filter:
  assumes "\<not> Q (u, v)"
  shows "filter (\<lambda>e. Q (fst e, fst (snd e)))
           (map (\<lambda>e. if fst e = u \<and> fst (snd e) = v then (u, v, snd (snd e) ++ a) else e) xs)
         = filter (\<lambda>e. Q (fst e, fst (snd e))) xs"
  using assms by (induction xs) simp_all

lemma add_edge_filter:
  assumes "\<not> Q (u, v)"
  shows "filter (\<lambda>e. Q (fst e, fst (snd e))) (edges (add_edge g u v a))
           = filter (\<lambda>e. Q (fst e, fst (snd e))) (edges g)"
  using assms
  by (simp add: add_edge_def Let_def add_node_edges upd_filter)

lemma upd_map_of:
  assumes "(x, y) \<noteq> (u, v)"
  shows "map_of (map (\<lambda>e. ((fst e, fst (snd e)), snd (snd e)))
           (map (\<lambda>e. if fst e = u \<and> fst (snd e) = v then (u, v, snd (snd e) ++ a) else e) xs)) (x, y)
         = map_of (map (\<lambda>e. ((fst e, fst (snd e)), snd (snd e))) xs) (x, y)"
  using assms by (induction xs) auto

lemma add_edge_edges_old:
  assumes "(u, v) \<in> set (pairs g)"
  shows "edges (add_edge g u v a)
           = map (\<lambda>e. if fst e = u \<and> fst (snd e) = v then (u, v, snd (snd e) ++ a) else e) (edges g)"
proof -
  have "has_edge g u v" using assms by (simp add: has_edge_pairs)
  then show ?thesis
    by (simp add: add_edge_def Let_def add_edge_has add_node_edges)
qed

lemma add_edge_attrs_other:
  assumes "(x, y) \<noteq> (u, v)"
  shows "edge_attrs (add_edge g u v a) x y = edge_attrs g x y"
proof (cases "(u, v) \<in> set (pairs g)")
  case True
  show ?thesis
    unfolding edge_attrs_def add_edge_edges_old [OF True]
    by (rule upd_map_of [OF assms])
next
  case False
  show ?thesis
    unfolding edge_attrs_def add_edge_edges_new [OF False]
    using assms by (auto simp: map_add_def split: option.splits)
qed

lemma add_edge_attrs_new:
  assumes "(u, v) \<notin> set (pairs g)"
  shows "edge_attrs (add_edge g u v a) u v = Some a"
proof -
  have "edge_attrs g u v = None"
    using assms by (simp add: edge_attrs_None_iff)
  then show ?thesis
    unfolding edge_attrs_def add_edge_edges_new [OF assms]
    by (simp add: map_add_def)
qed


lemma add_edge_pairs_mono: "set (pairs g) \<subseteq> set (pairs (add_edge g u v a))"
  by (auto simp: add_edge_pairs)

lemma add_edge_pairs_set: "set (pairs (add_edge g u v a)) = insert (u, v) (set (pairs g))"
  by (auto simp: add_edge_pairs)

lemma add_edge_distinct: "distinct (pairs g) \<Longrightarrow> distinct (pairs (add_edge g u v a))"
  by (simp add: add_edge_pairs)

lemma inner_pairs_set:
  "set (pairs (inner_graph n es g)) = set (pairs g) \<union> (\<lambda>e. (fst e, n)) ` set es"
  by (induction es arbitrary: g) (auto simp: add_edge_pairs_set)

lemma inner_distinct: "distinct (pairs g) \<Longrightarrow> distinct (pairs (inner_graph n es g))"
  by (induction es arbitrary: g) (simp_all add: add_edge_distinct)

lemma inner_nodes:
  "n \<in> set (nodes g) \<Longrightarrow> fst ` set es \<subseteq> set (nodes g) \<Longrightarrow> nodes (inner_graph n es g) = nodes g"
  by (induction es arbitrary: g) (simp_all add: add_edge_nodes)

lemma inner_filter:
  "\<forall>e\<in>set es. \<not> Q (fst e, n) \<Longrightarrow>
     filter (\<lambda>e. Q (fst e, fst (snd e))) (edges (inner_graph n es g))
       = filter (\<lambda>e. Q (fst e, fst (snd e))) (edges g)"
  by (induction es arbitrary: g) (simp_all add: add_edge_filter)

lemma inner_attrs_other:
  "v \<noteq> n \<or> u \<notin> fst ` set es \<Longrightarrow> edge_attrs (inner_graph n es g) u v = edge_attrs g u v"
proof (induction es arbitrary: g)
  case Nil
  then show ?case by simp
next
  case (Cons e es)
  have ne: "(u, v) \<noteq> (fst e, n)" using Cons.prems by auto
  have "v \<noteq> n \<or> u \<notin> fst ` set es" using Cons.prems by auto
  then show ?case
    by (simp add: Cons.IH add_edge_attrs_other [OF ne])
qed

lemma shape_inner_eq:
  "set es \<subseteq> set (pairs g) \<Longrightarrow>
     shape_inner n es (g, acc) = Inr (inner_graph n es g, acc @ es)"
proof (induction es arbitrary: g acc)
  case Nil
  then show ?case by simp
next
  case (Cons e es)
  have "(fst e, snd e) \<in> set (pairs g)" using Cons.prems by simp
  then obtain a where a: "edge_attrs g (fst e) (snd e) = Some a"
    using edge_attrs_None_iff [of g "fst e" "snd e"] by (cases "edge_attrs g (fst e) (snd e)") auto
  have sub: "set es \<subseteq> set (pairs (add_edge g (fst e) n a))"
    using Cons.prems add_edge_pairs_mono [of g "fst e" n a] by auto
  show ?case
    by (simp add: a Cons.IH [OF sub])
qed

lemma remove_edge_eq:
  "(u, v) \<in> set (pairs g) \<Longrightarrow>
     remove_edge g u v = Inr (g\<lparr>edges := filter (\<lambda>e. (fst e, fst (snd e)) \<noteq> (u, v)) (edges g)\<rparr>)"
  by (simp add: remove_edge_def has_edge_pairs)

lemma pairs_edges_update:
  "pairs (g\<lparr>edges := filter (\<lambda>e. Q (fst e, fst (snd e))) (edges g)\<rparr>) = filter Q (pairs g)"
  by (simp add: pairs_def filter_map comp_def)

lemma remove_edges_eq:
  "distinct es \<Longrightarrow> set es \<subseteq> set (pairs g) \<Longrightarrow>
     remove_edges g es
       = Inr (g\<lparr>edges := filter (\<lambda>e. (fst e, fst (snd e)) \<notin> set es) (edges g)\<rparr>)"
proof (induction es arbitrary: g)
  case Nil
  then show ?case by simp
next
  case (Cons e es)
  let ?g = "g\<lparr>edges := filter (\<lambda>e'. (fst e', fst (snd e')) \<noteq> e) (edges g)\<rparr>"
  have "(fst e, snd e) \<in> set (pairs g)" using Cons.prems by simp
  then have r: "remove_edge g (fst e) (snd e) = Inr ?g"
    by (simp add: remove_edge_eq)
  have p: "pairs ?g = filter (\<lambda>p. p \<noteq> e) (pairs g)"
    by (rule pairs_edges_update)
  have sub: "set es \<subseteq> set (pairs ?g)"
    using Cons.prems unfolding p by auto
  have d: "distinct es" using Cons.prems by simp
  have "remove_edges g (e # es) = remove_edges ?g es"
    by (simp add: r)
  also have "\<dots> = Inr (?g\<lparr>edges := filter (\<lambda>e. (fst e, fst (snd e)) \<notin> set es) (edges ?g)\<rparr>)"
    by (rule Cons.IH [OF d sub])
  also have "\<dots> = Inr (g\<lparr>edges := filter (\<lambda>e'. (fst e', fst (snd e')) \<notin> set (e # es)) (edges g)\<rparr>)"
    by (simp add: conj_commute)
  finally show ?case .
qed


lemma wf_graph_nodes:
  "wf_graph g \<Longrightarrow> (u, v) \<in> set (pairs g) \<Longrightarrow> u \<in> set (nodes g) \<and> v \<in> set (nodes g)"
  unfolding wf_graph_def list_all_iff by force

lemma in_edges_subset: "set (in_edges g s) \<subseteq> set (pairs g)"
  by (simp add: in_edges_pairs)

lemma in_edges_snd: "e \<in> set (in_edges g s) \<Longrightarrow> snd e = s"
  by (simp add: in_edges_pairs)

lemma in_edges_distinct: "wf_graph g \<Longrightarrow> distinct (in_edges g s)"
  by (simp add: in_edges_pairs wf_graph_def)

lemma out_edges_single_pair:
  "out_edges g s = [e] \<Longrightarrow> fst e = s \<and> (s, fst (snd e)) \<in> set (pairs g)"
proof -
  assume a: "out_edges g s = [e]"
  have "e \<in> set (out_edges g s)" by (simp add: a)
  then have "e \<in> set (edges g) \<and> fst e = s" by (simp add: out_edges_def)
  then show ?thesis unfolding pairs_def by force
qed

lemma shape_single:
  assumes wf: "wf_graph g" and p: "ast_node s = Pass" and o: "out_edges g s = [e]"
  shows "shape g s = Inr (elide g s (fst (snd e)))"
proof -
  let ?n = "fst (snd e)"
  let ?es = "in_edges g s"
  let ?g1 = "inner_graph ?n ?es g"
  have sn: "(s, ?n) \<in> set (pairs g)" using out_edges_single_pair [OF o] by simp
  have s_in: "s \<in> set (nodes g)" and n_in: "?n \<in> set (nodes g)"
    using wf_graph_nodes [OF wf sn] by simp_all
  have succ: "successors g s = Inr [?n]"
    by (simp add: successors_def s_in o)
  have outer: "shape_outer s [?n] (g, []) = Inr (?g1, ?es)"
    by (simp add: shape_inner_eq [OF in_edges_subset])
  have sub1: "set ?es \<subseteq> set (pairs ?g1)"
    using in_edges_subset [of g s] inner_pairs_set [of ?n ?es g] by auto
  have rem: "remove_edges ?g1 ?es
      = Inr (?g1\<lparr>edges := filter (\<lambda>e. (fst e, fst (snd e)) \<notin> set ?es) (edges ?g1)\<rparr>)"
    by (rule remove_edges_eq [OF in_edges_distinct [OF wf] sub1])
  have src: "fst ` set ?es \<subseteq> set (nodes g)"
    using wf_graph_nodes [OF wf] in_edges_subset [of g s] by force
  have nodes1: "nodes ?g1 = nodes g"
    by (rule inner_nodes [OF n_in src])
  have flt: "filter (\<lambda>x. (fst x, fst (snd x)) \<notin> set ?es \<and> fst x \<noteq> s \<and> fst (snd x) \<noteq> s) xs
             = filter (\<lambda>e. fst e \<noteq> s \<and> fst (snd e) \<noteq> s) xs"
    for xs :: "(state \<times> state \<times> 'a attrs) list"
    by (rule filter_cong [OF refl]) (auto dest: in_edges_snd)
  have len: "length (state_edges g s) \<noteq> 0" by (simp add: state_edges_def o)
  show ?thesis
    using p len
    by (simp add: shape_def succ outer rem remove_node_def nodes1 s_in elide_def flt
          del: shape_outer.simps)
qed

lemma wf_graph_edges_filter:
  "wf_graph g \<Longrightarrow> wf_graph (g\<lparr>edges := filter (\<lambda>e. Q (fst e, fst (snd e))) (edges g)\<rparr>)"
  unfolding wf_graph_def pairs_edges_update list_all_iff by auto

lemma pairs_remove_node:
  "pairs \<lparr>nodes = ns, edges = filter (\<lambda>e. fst e \<noteq> s \<and> fst (snd e) \<noteq> s) (edges g)\<rparr>
     = filter (\<lambda>p. fst p \<noteq> s \<and> snd p \<noteq> s) (pairs g)"
  by (simp add: pairs_def filter_map comp_def)

lemma wf_graph_remove_node:
  "wf_graph g \<Longrightarrow>
     wf_graph \<lparr>nodes = filter (\<lambda>m. m \<noteq> s) (nodes g),
               edges = filter (\<lambda>e. fst e \<noteq> s \<and> fst (snd e) \<noteq> s) (edges g)\<rparr>"
  unfolding wf_graph_def pairs_remove_node list_all_iff by auto

lemma wf_graph_inner:
  assumes wf: "wf_graph g" and n: "n \<in> set (nodes g)" and es: "set es \<subseteq> set (pairs g)"
  shows "wf_graph (inner_graph n es g)"
proof -
  have src: "fst ` set es \<subseteq> set (nodes g)"
    using wf_graph_nodes [OF wf] es by force
  have nd: "nodes (inner_graph n es g) = nodes g"
    by (rule inner_nodes [OF n src])
  have "\<forall>p\<in>set (pairs (inner_graph n es g)). fst p \<in> set (nodes g) \<and> snd p \<in> set (nodes g)"
    unfolding inner_pairs_set using wf_graph_nodes [OF wf] n src by force
  then show ?thesis
    using wf inner_distinct [of g n es]
    unfolding wf_graph_def nd list_all_iff by simp
qed

lemma inner_sources:
  "set es \<subseteq> set (pairs g) \<Longrightarrow> fst ` set (pairs (inner_graph n es g)) = fst ` set (pairs g)"
  unfolding inner_pairs_set by force

lemma add_edge_nodes_mono: "set (nodes g) \<subseteq> set (nodes (add_edge g u v a))"
  by (auto simp: add_edge_def Let_def add_node_nodes)

lemma inner_nodes_mono: "set (nodes g) \<subseteq> set (nodes (inner_graph n es g))"
proof (induction es arbitrary: g)
  case Nil
  then show ?case by simp
next
  case (Cons e es)
  show ?case
    using Cons.IH add_edge_nodes_mono by (simp del: subset_eq) blast
qed

lemma shape_outer_result:
  "shape_outer s ns (g, acc) = Inr (g1, acc1) \<Longrightarrow>
     fst ` set (pairs g1) = fst ` set (pairs g)
     \<and> set (nodes g) \<subseteq> set (nodes g1)
     \<and> (wf_graph g \<longrightarrow> set ns \<subseteq> set (nodes g) \<longrightarrow> wf_graph g1 \<and> nodes g1 = nodes g)"
proof (induction ns arbitrary: g acc)
  case Nil
  then show ?case by simp
next
  case (Cons n ns)
  let ?es = "in_edges g s"
  let ?g = "inner_graph n ?es g"
  have step: "shape_outer s ns (?g, acc @ ?es) = Inr (g1, acc1)"
    using Cons.prems by (simp add: shape_inner_eq [OF in_edges_subset])
  note ih = Cons.IH [OF step]
  have src: "fst ` set (pairs ?g) = fst ` set (pairs g)"
    by (rule inner_sources [OF in_edges_subset])
  have "wf_graph g1 \<and> nodes g1 = nodes g" if wf: "wf_graph g" and sub: "set (n # ns) \<subseteq> set (nodes g)"
  proof -
    have n: "n \<in> set (nodes g)" using sub by simp
    have wf1: "wf_graph ?g" by (rule wf_graph_inner [OF wf n in_edges_subset])
    have "fst ` set ?es \<subseteq> set (nodes g)"
      using wf_graph_nodes [OF wf] in_edges_subset [of g s] by force
    then have nd: "nodes ?g = nodes g" by (rule inner_nodes [OF n])
    show ?thesis using ih wf1 nd sub by simp
  qed
  then show ?case using ih src inner_nodes_mono [of g n ?es] by auto
qed

lemma remove_edges_result:
  "remove_edges g es = Inr g' \<Longrightarrow>
     nodes g' = nodes g \<and> (\<exists>Q. edges g' = filter (\<lambda>e. Q (fst e, fst (snd e))) (edges g))"
proof (induction es arbitrary: g)
  case Nil
  then have "g' = g" by simp
  then show ?case by (intro conjI exI [of _ "\<lambda>p. True"]) simp_all
next
  case (Cons e es)
  let ?g = "g\<lparr>edges := filter (\<lambda>e'. \<not> (fst e' = fst e \<and> fst (snd e') = snd e)) (edges g)\<rparr>"
  have r: "remove_edge g (fst e) (snd e) = Inr ?g" and step: "remove_edges ?g es = Inr g'"
    using Cons.prems by (auto simp: remove_edge_def split: if_splits)
  from Cons.IH [OF step] obtain Q where
    nd: "nodes g' = nodes g" and ed: "edges g' = filter (\<lambda>e. Q (fst e, fst (snd e))) (edges ?g)"
    by auto
  have "edges g' = filter (\<lambda>e'. (\<lambda>p. \<not> (fst p = fst e \<and> snd p = snd e) \<and> Q p) (fst e', fst (snd e'))) (edges g)"
    unfolding ed by (simp add: conj_commute)
  then show ?case using nd
    by (intro conjI exI [of _ "\<lambda>p. \<not> (fst p = fst e \<and> snd p = snd e) \<and> Q p"]) simp_all
qed


lemma pairs_filter:
  "edges g' = filter (\<lambda>e. Q (fst e, fst (snd e))) (edges g) \<Longrightarrow> pairs g' = filter Q (pairs g)"
  by (simp add: pairs_def filter_map comp_def)

lemma wf_graph_sub:
  assumes "wf_graph g" and "nodes g' = nodes g" and "pairs g' = filter Q (pairs g)"
  shows "wf_graph g'"
  using assms unfolding wf_graph_def list_all_iff by auto

lemma wf_graph_without:
  assumes "wf_graph g" and "nodes g' = filter (\<lambda>m. m \<noteq> s) (nodes g)"
    and "pairs g' = filter (\<lambda>p. fst p \<noteq> s \<and> snd p \<noteq> s) (pairs g)"
  shows "wf_graph g'"
  using assms unfolding wf_graph_def list_all_iff by auto

lemma remove_node_result:
  "remove_node g s = Inr g' \<Longrightarrow>
     nodes g' = filter (\<lambda>m. m \<noteq> s) (nodes g)
     \<and> edges g' = filter (\<lambda>e. (\<lambda>p. fst p \<noteq> s \<and> snd p \<noteq> s) (fst e, fst (snd e))) (edges g)"
  by (auto simp: remove_node_def split: if_splits)

lemma successors_result:
  "successors g s = Inr ns \<Longrightarrow> set ns = snd ` {p \<in> set (pairs g). fst p = s}"
  unfolding successors_def out_edges_def pairs_def by (force split: if_splits)

lemma shape_not_elidable: "\<not> elidable g s \<Longrightarrow> shape g s = Inr g"
  by (auto simp: shape_def elidable_def state_edges_def)

lemma shape_elidable:
  assumes sh: "shape g s = Inr g'" and el: "elidable g s"
  shows "s \<notin> set (nodes g') \<and> fst ` set (pairs g') \<subseteq> fst ` set (pairs g)
         \<and> set (nodes g) - {s} \<subseteq> set (nodes g')
         \<and> (wf_graph g \<longrightarrow> wf_graph g' \<and> set (nodes g') \<subseteq> set (nodes g))"
proof -
  have guard: "\<not> (ast_node s \<noteq> Pass \<or> length (state_edges g s) = 0)"
    using el by (simp add: elidable_def state_edges_def)
  obtain ns where succ: "successors g s = Inr ns"
    using sh guard by (auto simp: shape_def split: sum.splits)
  obtain g1 rem where outer: "shape_outer s ns (g, []) = Inr (g1, rem)"
    using sh guard succ by (auto simp: shape_def split: sum.splits)
  obtain g2 where rm: "remove_edges g1 rem = Inr g2"
    using sh guard succ outer by (auto simp: shape_def split: sum.splits)
  have last: "remove_node g2 s = Inr g'"
    using sh guard succ outer rm by (simp add: shape_def)
  note o = shape_outer_result [OF outer]
  from remove_edges_result [OF rm] obtain Q where
    nd2: "nodes g2 = nodes g1" and ed2: "edges g2 = filter (\<lambda>e. Q (fst e, fst (snd e))) (edges g1)"
    by auto
  note p2 = pairs_filter [OF ed2]
  note r = remove_node_result [OF last]
  note p3 = pairs_filter [OF conjunct2 [OF r]]
  have a: "s \<notin> set (nodes g')" using r by simp
  have b: "fst ` set (pairs g') \<subseteq> fst ` set (pairs g)"
    unfolding p3 p2 using o by force
  have c: "wf_graph g' \<and> set (nodes g') \<subseteq> set (nodes g)" if wf: "wf_graph g"
  proof -
    have "set ns \<subseteq> set (nodes g)"
      unfolding successors_result [OF succ] using wf_graph_nodes [OF wf] by force
    then have wf1: "wf_graph g1" and nd1: "nodes g1 = nodes g" using o wf by simp_all
    have wf2: "wf_graph g2" by (rule wf_graph_sub [OF wf1 nd2 p2])
    have "wf_graph g'" by (rule wf_graph_without [OF wf2 conjunct1 [OF r] p3])
    then show ?thesis using r nd2 nd1 by auto
  qed
  have d: "set (nodes g) - {s} \<subseteq> set (nodes g')"
    using r nd2 o by auto
  show ?thesis using a b c d by blast
qed


lemma shape_keeps_settled:
  assumes "shape g s = Inr g'" and "\<not> elidable g n"
  shows "\<not> elidable g' n"
proof (cases "elidable g s")
  case False
  then show ?thesis using assms shape_not_elidable [OF False] by simp
next
  case True
  have "fst ` set (pairs g') \<subseteq> fst ` set (pairs g)"
    using shape_elidable [OF assms(1) True] by simp
  then show ?thesis
    using assms(2) unfolding elidable_def out_edges_Nil_iff by auto
qed

lemma shape_nodes_settled:
  "wf_graph g \<Longrightarrow> shape_nodes g ns = Inr g' \<Longrightarrow> \<forall>n. S n \<longrightarrow> \<not> elidable g n \<Longrightarrow>
     wf_graph g' \<and> set (nodes g') \<subseteq> set (nodes g)
     \<and> (\<forall>n. S n \<or> n \<in> set ns \<and> n \<in> set (nodes g') \<longrightarrow> \<not> elidable g' n)"
proof (induction ns arbitrary: g S)
  case Nil
  then show ?case by simp
next
  case (Cons s ns)
  obtain g1 where sh: "shape g s = Inr g1" and rest: "shape_nodes g1 ns = Inr g'"
    using Cons.prems(2) by (auto split: sum.splits)
  have wf1: "wf_graph g1" and sub1: "set (nodes g1) \<subseteq> set (nodes g)"
    using shape_elidable [OF sh] shape_not_elidable [of g s] sh Cons.prems(1)
    by (cases "elidable g s"; simp)+
  let ?S = "\<lambda>n. S n \<or> n = s \<and> s \<in> set (nodes g1)"
  have inv: "\<forall>n. ?S n \<longrightarrow> \<not> elidable g1 n"
  proof (intro allI impI)
    fix n assume "?S n"
    then show "\<not> elidable g1 n"
    proof
      assume "S n"
      then show ?thesis using shape_keeps_settled [OF sh] Cons.prems(3) by blast
    next
      assume a: "n = s \<and> s \<in> set (nodes g1)"
      then have ne: "\<not> elidable g s" using shape_elidable [OF sh] by blast
      then have "g1 = g" using sh shape_not_elidable [OF ne] by simp
      then show ?thesis using ne a by simp
    qed
  qed
  note ih = Cons.IH [OF wf1 rest inv]
  show ?case using ih sub1 by auto
qed

lemma shape_nodes_fixed:
  "\<forall>n\<in>set ns. \<not> elidable g n \<Longrightarrow> shape_nodes g ns = Inr g"
  by (induction ns) (simp_all add: shape_not_elidable)

lemma elidable_in_nodes:
  assumes "wf_graph g" and "elidable g s"
  shows "s \<in> set (nodes g)"
proof -
  have "s \<in> fst ` set (pairs g)"
    using assms(2) unfolding elidable_def out_edges_Nil_iff by simp
  then obtain v where "(s, v) \<in> set (pairs g)" by force
  then show ?thesis using wf_graph_nodes [OF assms(1)] by blast
qed

lemma elidable_single:
  assumes wf: "wf_graph g" and se: "single_exit g" and el: "elidable g s"
  shows "\<exists>e. out_edges g s = [e]"
proof -
  have "s \<in> set (nodes g)" by (rule elidable_in_nodes [OF wf el])
  then have "length (out_edges g s) \<le> 1"
    using se el unfolding single_exit_def list_all_iff elidable_def by auto
  moreover have "out_edges g s \<noteq> []" using el by (simp add: elidable_def)
  ultimately show ?thesis by (cases "out_edges g s") auto
qed

lemma out_edges_single_only:
  assumes "out_edges g s = [e]" and "(s, v) \<in> set (pairs g)"
  shows "v = fst (snd e)"
proof -
  have "(s, v) \<in> set (filter (\<lambda>p. fst p = s) (pairs g))" using assms(2) by simp
  then have "(s, v) \<in> set (map (\<lambda>e. (fst e, fst (snd e))) (out_edges g s))"
    by (simp only: out_edges_pairs)
  then show ?thesis by (simp add: assms(1))
qed

lemma inner_pairs_filter:
  assumes "\<forall>e\<in>set es. \<not> Q (fst e, n)"
  shows "filter Q (pairs (inner_graph n es g)) = filter Q (pairs g)"
proof -
  have "filter Q (pairs h) = map (\<lambda>e. (fst e, fst (snd e))) (filter (\<lambda>e. Q (fst e, fst (snd e))) (edges h))"
    for h :: "'a graph"
    by (simp add: pairs_def filter_map comp_def)
  then show ?thesis by (simp add: inner_filter [OF assms])
qed

lemma pairs_elide:
  "pairs (elide g s n)
     = filter (\<lambda>p. fst p \<noteq> s \<and> snd p \<noteq> s) (pairs (inner_graph n (in_edges g s) g))"
  by (simp add: elide_def pairs_def filter_map comp_def)

lemma in_edges_elide_other:
  assumes o: "out_edges g s = [e]" and vs: "v \<noteq> s" and vn: "v \<noteq> fst (snd e)"
  shows "in_edges (elide g s (fst (snd e))) v = in_edges g v"
proof -
  let ?n = "fst (snd e)"
  let ?Q = "\<lambda>p. (fst p \<noteq> s \<and> snd p \<noteq> s) \<and> snd p = v"
  have a: "\<forall>e'\<in>set (in_edges g s). \<not> ?Q (fst e', ?n)" using vn by simp
  have "in_edges (elide g s ?n) v = filter ?Q (pairs (inner_graph ?n (in_edges g s) g))"
    by (simp add: in_edges_pairs pairs_elide conj_commute)
  also have "\<dots> = filter ?Q (pairs g)" by (rule inner_pairs_filter [OF a])
  also have "\<dots> = filter (\<lambda>p. snd p = v) (pairs g)"
  proof (rule filter_cong [OF refl])
    fix p assume p: "p \<in> set (pairs g)"
    have "fst p \<noteq> s" if "snd p = v"
    proof
      assume "fst p = s"
      then have "(s, v) \<in> set (pairs g)" using p that by (metis prod.collapse)
      then show False using out_edges_single_only [OF o] vn by blast
    qed
    then show "?Q p = (snd p = v)" using vs by auto
  qed
  finally show ?thesis by (simp add: in_edges_pairs)
qed

lemma edge_attrs_filter:
  assumes "edges g' = filter (\<lambda>e. Q (fst e, fst (snd e))) (edges g)" and "Q (u, v)"
  shows "edge_attrs g' u v = edge_attrs g u v"
proof -
  have "map_of (map (\<lambda>e. ((fst e, fst (snd e)), snd (snd e))) (filter (\<lambda>e. Q (fst e, fst (snd e))) xs)) (u, v)
        = map_of (map (\<lambda>e. ((fst e, fst (snd e)), snd (snd e))) xs) (u, v)"
    for xs :: "(state \<times> state \<times> 'a attrs) list"
    using assms(2) by (induction xs) auto
  then show ?thesis by (simp add: edge_attrs_def assms(1))
qed

lemma edge_attrs_elide_other:
  assumes "u \<noteq> s" and "v \<noteq> s" and "v \<noteq> n \<or> u \<notin> fst ` set (in_edges g s)"
  shows "edge_attrs (elide g s n) u v = edge_attrs g u v"
proof -
  have "edges (elide g s n)
        = filter (\<lambda>e. (\<lambda>p. fst p \<noteq> s \<and> snd p \<noteq> s) (fst e, fst (snd e)))
            (edges (inner_graph n (in_edges g s) g))"
    by (simp add: elide_def)
  then have "edge_attrs (elide g s n) u v = edge_attrs (inner_graph n (in_edges g s) g) u v"
    by (rule edge_attrs_filter) (simp add: assms)
  then show ?thesis by (simp add: inner_attrs_other [OF assms(3)])
qed

lemma elide_chain_step:
  assumes o: "out_edges g s = [e]" and i: "in_edges g s = [(x, s)]"
    and xs: "x \<noteq> s" and ns: "fst (snd e) \<noteq> s"
    and inn: "in_edges g (fst (snd e)) = [(s, fst (snd e))]"
  shows "in_edges (elide g s (fst (snd e))) (fst (snd e)) = [(x, fst (snd e))]
         \<and> edge_attrs (elide g s (fst (snd e))) x (fst (snd e)) = edge_attrs g x s"
proof -
  let ?n = "fst (snd e)"
  have into: "fst p = s" if "p \<in> set (pairs g)" and "snd p = ?n" for p
  proof -
    have "p \<in> set (in_edges g ?n)" using that by (simp add: in_edges_pairs)
    then show ?thesis by (simp add: inn)
  qed
  have nx: "(x, ?n) \<notin> set (pairs g)" using into [of "(x, ?n)"] xs by auto
  have "(x, s) \<in> set (in_edges g s)" by (simp add: i)
  then have "(x, s) \<in> set (pairs g)" using in_edges_subset by blast
  then obtain b where b: "edge_attrs g x s = Some b"
    using edge_attrs_None_iff [of g x s] by (cases "edge_attrs g x s") auto
  have inner: "inner_graph ?n (in_edges g s) g = add_edge g x ?n b"
    by (simp add: i b)
  have ps: "pairs (elide g s ?n)
              = filter (\<lambda>p. fst p \<noteq> s \<and> snd p \<noteq> s) (pairs g) @ [(x, ?n)]"
    using xs ns by (simp add: pairs_elide inner add_edge_pairs nx)
  have "filter (\<lambda>p. snd p = ?n) (filter (\<lambda>p. fst p \<noteq> s \<and> snd p \<noteq> s) (pairs g)) = []"
    unfolding filter_empty_conv using into by auto
  then have a: "in_edges (elide g s ?n) ?n = [(x, ?n)]"
    unfolding in_edges_pairs ps by simp
  have "edges (elide g s ?n)
        = filter (\<lambda>e. (\<lambda>p. fst p \<noteq> s \<and> snd p \<noteq> s) (fst e, fst (snd e)))
            (edges (add_edge g x ?n b))"
    by (simp add: elide_def inner)
  then have "edge_attrs (elide g s ?n) x ?n = edge_attrs (add_edge g x ?n b) x ?n"
    by (rule edge_attrs_filter) (simp add: xs ns)
  then have "edge_attrs (elide g s ?n) x ?n = edge_attrs g x s"
    by (simp add: add_edge_attrs_new [OF nx] b)
  then show ?thesis using a by simp
qed

lemma inner_out:
  "filter (\<lambda>p. fst p = y) (pairs (inner_graph n es g))
     = filter (\<lambda>p. fst p = y) (pairs g)
       @ (if y \<in> fst ` set es \<and> (y, n) \<notin> set (pairs g) then [(y, n)] else [])"
proof (induction es arbitrary: g)
  case Nil
  then show ?case by simp
next
  case (Cons e es)
  let ?g = "add_edge g (fst e) n
              (case edge_attrs g (fst e) (snd e) of None \<Rightarrow> Map.empty | Some a \<Rightarrow> a)"
  have ih: "filter (\<lambda>p. fst p = y) (pairs (inner_graph n (e # es) g))
     = filter (\<lambda>p. fst p = y) (pairs ?g)
       @ (if y \<in> fst ` set es \<and> (y, n) \<notin> set (pairs ?g) then [(y, n)] else [])"
    using Cons.IH [of ?g] by simp
  show ?case
  proof (cases "fst e = y")
    case True
    then show ?thesis
      unfolding ih add_edge_pairs add_edge_pairs_set by auto
  next
    case False
    then show ?thesis
      unfolding ih add_edge_pairs add_edge_pairs_set by auto
  qed
qed


lemma nodes_elide: "nodes (elide g s n) = filter (\<lambda>m. m \<noteq> s) (nodes g)"
  by (simp add: elide_def)

lemma single_exit_elide:
  assumes wf: "wf_graph g" and se: "single_exit g" and o: "out_edges g s = [e]"
  shows "single_exit (elide g s (fst (snd e)))"
proof -
  let ?n = "fst (snd e)"
  let ?es = "in_edges g s"
  have "length (out_edges (elide g s ?n) y) \<le> 1"
    if y: "y \<in> set (nodes g)" and ys: "y \<noteq> s" and p: "ast_node y = Pass" for y
  proof -
    have deg: "length (filter (\<lambda>p. fst p = y) (pairs g)) \<le> 1"
      using se y p unfolding single_exit_def list_all_iff length_out_edges by auto
    have "filter (\<lambda>p. fst p = y) (pairs (elide g s ?n))
          = filter (\<lambda>p. snd p \<noteq> s) (filter (\<lambda>p. fst p = y) (pairs (inner_graph ?n ?es g)))"
      unfolding pairs_elide filter_filter
      by (rule filter_cong [OF refl]) (use ys in auto)
    then have eq: "filter (\<lambda>p. fst p = y) (pairs (elide g s ?n))
          = filter (\<lambda>p. snd p \<noteq> s)
              (filter (\<lambda>p. fst p = y) (pairs g)
               @ (if y \<in> fst ` set ?es \<and> (y, ?n) \<notin> set (pairs g) then [(y, ?n)] else []))"
      by (simp only: inner_out)
    show ?thesis
    proof (cases "y \<in> fst ` set ?es \<and> (y, ?n) \<notin> set (pairs g)")
      case False
      have "length (filter (\<lambda>p. snd p \<noteq> s) (filter (\<lambda>p. fst p = y) (pairs g)))
              \<le> length (filter (\<lambda>p. fst p = y) (pairs g))"
        by (rule length_filter_le)
      then show ?thesis
        unfolding length_out_edges eq if_not_P [OF False] using deg by simp
    next
      case True
      then obtain q where q: "q \<in> set ?es" and qy: "fst q = y" by auto
      have "snd q = s" using in_edges_snd [OF q] .
      then have "(y, s) \<in> set (pairs g)"
        using q qy in_edges_subset [of g s] by (metis prod.collapse subsetD)
      then have mem: "(y, s) \<in> set (filter (\<lambda>p. fst p = y) (pairs g))" by simp
      obtain r where r: "filter (\<lambda>p. fst p = y) (pairs g) = [r]"
        using deg mem by (cases "filter (\<lambda>p. fst p = y) (pairs g)") auto
      have "r = (y, s)" using mem unfolding r by simp
      then show ?thesis
        unfolding length_out_edges eq r if_P [OF True] by simp
    qed
  qed
  then show ?thesis
    unfolding single_exit_def list_all_iff nodes_elide by auto
qed

lemma elide_step:
  assumes wf: "wf_graph g" and se: "single_exit g" and el: "elidable g s"
  shows "\<exists>e. out_edges g s = [e]
           \<and> shape g s = Inr (elide g s (fst (snd e)))
           \<and> wf_graph (elide g s (fst (snd e)))
           \<and> single_exit (elide g s (fst (snd e)))"
proof -
  obtain e where o: "out_edges g s = [e]"
    using elidable_single [OF wf se el] by blast
  have p: "ast_node s = Pass" using el by (simp add: elidable_def)
  have sh: "shape g s = Inr (elide g s (fst (snd e)))"
    by (rule shape_single [OF wf p o])
  have "wf_graph (elide g s (fst (snd e)))"
    using shape_elidable [OF sh el] wf by simp
  then show ?thesis
    using o sh single_exit_elide [OF wf se o] by blast
qed

lemma link_frame:
  "link g x cs b \<Longrightarrow> \<forall>v\<in>set (cs @ [b]). in_edges g1 v = in_edges g v \<Longrightarrow> link g1 x cs b"
  by (induction cs arbitrary: x) simp_all

lemma link_pass: "link g x cs b \<Longrightarrow> c \<in> set cs \<Longrightarrow> ast_node c = Pass"
  by (induction cs arbitrary: x) auto

lemma link_in_edges:
  "link g x cs b \<Longrightarrow> v \<in> set (cs @ [b]) \<Longrightarrow> \<exists>u\<in>set (x # cs). in_edges g v = [(u, v)]"
proof (induction cs arbitrary: x)
  case Nil
  then show ?case by simp
next
  case (Cons c cs)
  show ?case
  proof (cases "v = c")
    case True
    then show ?thesis using Cons.prems by simp
  next
    case False
    then have "v \<in> set (cs @ [b])" using Cons.prems by auto
    then have "\<exists>u\<in>set (c # cs). in_edges g v = [(u, v)]"
      using Cons.IH [of c] Cons.prems by simp
    then show ?thesis by auto
  qed
qed

lemma link_next:
  "link g x (pre @ c # post) b \<Longrightarrow> in_edges g (hd (post @ [b])) = [(c, hd (post @ [b]))]"
proof (induction pre arbitrary: x)
  case Nil
  then show ?case by (cases post) simp_all
next
  case (Cons p pre)
  then have "link g p (pre @ c # post) b" by simp
  then show ?case by (rule Cons.IH)
qed

lemma link_elide_other:
  assumes l: "link g x cs b" and o: "out_edges g s = [e]"
    and s: "s \<notin> set (x # cs)" "s \<noteq> b"
  shows "link (elide g s (fst (snd e))) x cs b"
proof (rule link_frame [OF l], rule ballI)
  fix v assume v: "v \<in> set (cs @ [b])"
  obtain u where u: "u \<in> set (x # cs)" and iv: "in_edges g v = [(u, v)]"
    using link_in_edges [OF l v] by blast
  have vs: "v \<noteq> s" using v s by auto
  have "v \<noteq> fst (snd e)"
  proof
    assume "v = fst (snd e)"
    then have "(s, v) \<in> set (pairs g)" using out_edges_single_pair [OF o] by simp
    then have "(s, v) \<in> set (in_edges g v)" by (simp add: in_edges_pairs)
    then have "s = u" by (simp add: iv)
    then show False using u s by simp
  qed
  then show "in_edges (elide g s (fst (snd e))) v = in_edges g v"
    by (rule in_edges_elide_other [OF o vs])
qed

lemma link_elide_chain:
  assumes "link g x (pre @ c # post) b" and "distinct (pre @ c # post @ [b])"
    and "x \<notin> set (pre @ c # post)" and o: "out_edges g c = [e]"
    and n: "fst (snd e) = hd (post @ [b])"
  shows "link (elide g c (fst (snd e))) x (pre @ post) b"
  using assms(1-3)
proof (induction pre arbitrary: x)
  case Nil
  let ?n = "fst (snd e)"
  have ic: "in_edges g c = [(x, c)]" and lc: "link g c post b" using Nil.prems(1) by simp_all
  have xc: "x \<noteq> c" using Nil.prems(3) by simp
  have nc: "?n \<noteq> c" unfolding n using Nil.prems(2) by (cases post) auto
  have inn: "in_edges g ?n = [(c, ?n)]"
    unfolding n using link_next [of g x "[]" c post b] Nil.prems(1) by simp
  note st = elide_chain_step [OF o ic xc nc inn]
  show ?case
  proof (cases post)
    case Nil
    then show ?thesis using st n by simp
  next
    case (Cons c2 post')
    have l2: "link g c2 post' b" and p2: "ast_node c2 = Pass" using lc Cons by simp_all
    have "\<forall>v\<in>set (post' @ [b]). in_edges (elide g c ?n) v = in_edges g v"
    proof
      fix v assume v: "v \<in> set (post' @ [b])"
      have "v \<noteq> c" "v \<noteq> ?n" using v Nil.prems(2) unfolding n Cons by auto
      then show "in_edges (elide g c ?n) v = in_edges g v"
        by (rule in_edges_elide_other [OF o])
    qed
    then have "link (elide g c ?n) c2 post' b" by (rule link_frame [OF l2])
    then show ?thesis using st p2 n Cons by simp
  qed
next
  case (Cons p pre)
  let ?n = "fst (snd e)"
  have ip: "in_edges g p = [(x, p)]" and pp: "ast_node p = Pass"
    and lp: "link g p (pre @ c # post) b" using Cons.prems(1) by simp_all
  have d: "distinct (pre @ c # post @ [b])" and pn: "p \<notin> set (pre @ c # post)"
    using Cons.prems(2) by auto
  note ih = Cons.IH [OF lp d pn]
  have "p \<noteq> c" "p \<noteq> ?n" using Cons.prems(2) unfolding n by (cases post; auto)+
  then have "in_edges (elide g c ?n) p = in_edges g p"
    by (rule in_edges_elide_other [OF o])
  then show ?case using ih ip pp by simp
qed

lemma link_not_succ:
  assumes l: "link g x cs b" and o: "out_edges g s = [e]"
    and s: "s \<notin> set (x # cs)" and v: "v \<in> set (cs @ [b])"
  shows "v \<noteq> fst (snd e)"
proof
  assume "v = fst (snd e)"
  then have "(s, v) \<in> set (pairs g)" using out_edges_single_pair [OF o] by simp
  then have "(s, v) \<in> set (in_edges g v)" by (simp add: in_edges_pairs)
  moreover obtain u where "u \<in> set (x # cs)" and "in_edges g v = [(u, v)]"
    using link_in_edges [OF l v] by blast
  ultimately show False using s by auto
qed

lemma inv_step_other:
  assumes inv: "chain_inv g A cs B a" and s: "s \<notin> set cs"
  shows "\<exists>g1. shape g s = Inr g1 \<and> chain_inv g1 A cs B a \<and> set (nodes g1) \<subseteq> set (nodes g)"
proof (cases "elidable g s")
  case False
  then show ?thesis using inv shape_not_elidable [OF False] by auto
next
  case True
  have wf: "wf_graph g" and se: "single_exit g" and l: "link g A cs B"
    and d: "distinct (cs @ [B])" and A: "ast_node A \<noteq> Pass" and B: "\<not> elidable g B"
    and at: "edge_attrs g A (hd (cs @ [B])) = Some a"
    and An: "A \<in> set (nodes g)" and Bn: "B \<in> set (nodes g)"
    using inv by (simp_all add: chain_inv_def)
  obtain e where o: "out_edges g s = [e]"
    and sh: "shape g s = Inr (elide g s (fst (snd e)))"
    and wf1: "wf_graph (elide g s (fst (snd e)))"
    and se1: "single_exit (elide g s (fst (snd e)))"
    using elide_step [OF wf se True] by blast
  let ?g = "elide g s (fst (snd e))"
  have sA: "s \<noteq> A" using True A by (auto simp: elidable_def)
  have sB: "s \<noteq> B" using True B by auto
  have sx: "s \<notin> set (A # cs)" using sA s by simp
  have l1: "link ?g A cs B" by (rule link_elide_other [OF l o sx sB])
  have B1: "\<not> elidable ?g B" by (rule shape_keeps_settled [OF sh B])
  have hd_in: "hd (cs @ [B]) \<in> set (cs @ [B])" by (cases cs) simp_all
  have h1: "hd (cs @ [B]) \<noteq> s" using hd_in s sB by auto
  have h2: "hd (cs @ [B]) \<noteq> fst (snd e)" by (rule link_not_succ [OF l o sx hd_in])
  have at1: "edge_attrs ?g A (hd (cs @ [B])) = Some a"
    using edge_attrs_elide_other [of A s "hd (cs @ [B])" "fst (snd e)" g] sA h1 h2 at by simp
  have nd: "nodes ?g = filter (\<lambda>m. m \<noteq> s) (nodes g)" by (rule nodes_elide)
  have "chain_inv ?g A cs B a"
    unfolding chain_inv_def using wf1 se1 l1 d A B1 at1 An Bn sA sB by (simp add: nd)
  then show ?thesis using sh nd by auto
qed

lemma inv_step_chain:
  assumes inv: "chain_inv g A (pre @ c # post) B a"
  shows "\<exists>g1. shape g c = Inr g1 \<and> chain_inv g1 A (pre @ post) B a
           \<and> set (nodes g1) \<subseteq> set (nodes g) - {c}"
proof -
  let ?cs = "pre @ c # post"
  let ?nx = "hd (post @ [B])"
  have wf: "wf_graph g" and se: "single_exit g" and l: "link g A ?cs B"
    and d: "distinct (?cs @ [B])" and A: "ast_node A \<noteq> Pass" and B: "\<not> elidable g B"
    and at: "edge_attrs g A (hd (?cs @ [B])) = Some a"
    and An: "A \<in> set (nodes g)" and Bn: "B \<in> set (nodes g)"
    using inv by (simp_all add: chain_inv_def)
  have pc: "ast_node c = Pass" using link_pass [OF l, of c] by simp
  have inn: "in_edges g ?nx = [(c, ?nx)]" by (rule link_next [OF l])
  then have "(c, ?nx) \<in> set (in_edges g ?nx)" by simp
  then have cn: "(c, ?nx) \<in> set (pairs g)" using in_edges_subset by blast
  then have el: "elidable g c"
    using pc unfolding elidable_def out_edges_Nil_iff by force
  obtain e where o: "out_edges g c = [e]"
    and sh: "shape g c = Inr (elide g c (fst (snd e)))"
    and wf1: "wf_graph (elide g c (fst (snd e)))"
    and se1: "single_exit (elide g c (fst (snd e)))"
    using elide_step [OF wf se el] by blast
  let ?g = "elide g c (fst (snd e))"
  have n: "fst (snd e) = ?nx" using out_edges_single_only [OF o cn] by simp
  have Acs: "A \<notin> set ?cs" using link_pass [OF l] A by auto
  have d': "distinct (pre @ c # post @ [B])" using d by simp
  have l1: "link ?g A (pre @ post) B" by (rule link_elide_chain [OF l d' Acs o n])
  have B1: "\<not> elidable ?g B" by (rule shape_keeps_settled [OF sh B])
  have cA: "A \<noteq> c" using Acs by auto
  have cB: "B \<noteq> c" using d by auto
  have nxc: "?nx \<noteq> c" using d by (cases post) auto
  have at1: "edge_attrs ?g A (hd ((pre @ post) @ [B])) = Some a"
  proof (cases pre)
    case Nil
    have ic: "in_edges g c = [(A, c)]" using l Nil by simp
    have "edge_attrs ?g A (fst (snd e)) = edge_attrs g A c"
      using elide_chain_step [OF o ic cA] nxc inn unfolding n by simp
    then show ?thesis using at Nil n by simp
  next
    case (Cons p pre')
    have "p \<noteq> c" "p \<noteq> ?nx" using d Cons by (cases post; auto)+
    then have "edge_attrs ?g A p = edge_attrs g A p"
      using edge_attrs_elide_other [of A c p "fst (snd e)" g] cA n by simp
    then show ?thesis using at Cons by simp
  qed
  have d1: "distinct ((pre @ post) @ [B])" using d by auto
  have nd: "nodes ?g = filter (\<lambda>m. m \<noteq> c) (nodes g)" by (rule nodes_elide)
  have "chain_inv ?g A (pre @ post) B a"
    unfolding chain_inv_def using wf1 se1 l1 d1 A B1 at1 An Bn cA cB by (simp add: nd)
  then show ?thesis using sh nd by auto
qed

lemma chain_shape_nodes:
  "chain_inv g A cs B a \<Longrightarrow> set cs \<subseteq> set ns \<Longrightarrow> distinct ns \<Longrightarrow>
     \<exists>g'. shape_nodes g ns = Inr g' \<and> chain_inv g' A [] B a
          \<and> set (nodes g') \<subseteq> set (nodes g) - set cs"
proof (induction ns arbitrary: g cs)
  case Nil
  then show ?case by simp
next
  case (Cons s ns)
  show ?case
  proof (cases "s \<in> set cs")
    case True
    then obtain pre post where cs: "cs = pre @ s # post" by (meson split_list)
    obtain g1 where sh: "shape g s = Inr g1" and inv1: "chain_inv g1 A (pre @ post) B a"
      and nd: "set (nodes g1) \<subseteq> set (nodes g) - {s}"
      using inv_step_chain [of g A pre s post B a] Cons.prems(1) unfolding cs by blast
    have "distinct cs" using Cons.prems(1) by (simp add: chain_inv_def)
    then have "s \<notin> set (pre @ post)" unfolding cs by auto
    then have sub: "set (pre @ post) \<subseteq> set ns" using Cons.prems(2) unfolding cs by auto
    have dn: "distinct ns" using Cons.prems(3) by simp
    obtain g' where r: "shape_nodes g1 ns = Inr g'" and inv': "chain_inv g' A [] B a"
      and nd': "set (nodes g') \<subseteq> set (nodes g1) - set (pre @ post)"
      using Cons.IH [OF inv1 sub dn] by blast
    have "set (nodes g') \<subseteq> set (nodes g) - set cs" using nd nd' unfolding cs by auto
    then show ?thesis using sh r inv' by auto
  next
    case False
    obtain g1 where sh: "shape g s = Inr g1" and inv1: "chain_inv g1 A cs B a"
      and nd: "set (nodes g1) \<subseteq> set (nodes g)"
      using inv_step_other [OF Cons.prems(1) False] by blast
    have sub: "set cs \<subseteq> set ns" using Cons.prems(2) False by auto
    have dn: "distinct ns" using Cons.prems(3) by simp
    obtain g' where r: "shape_nodes g1 ns = Inr g'" and inv': "chain_inv g' A [] B a"
      and nd': "set (nodes g') \<subseteq> set (nodes g1) - set cs"
      using Cons.IH [OF inv1 sub dn] by blast
    have "set (nodes g') \<subseteq> set (nodes g) - set cs" using nd nd' by auto
    then show ?thesis using sh r inv' by auto
  qed
qed

lemma link_nodes:
  "wf_graph g \<Longrightarrow> link g x cs b \<Longrightarrow> set (x # cs @ [b]) \<subseteq> set (nodes g)"
proof (induction cs arbitrary: x)
  case Nil
  then have "(x, b) \<in> set (in_edges g b)" by simp
  then have "(x, b) \<in> set (pairs g)" using in_edges_subset by blast
  then show ?case using wf_graph_nodes [OF Nil.prems(1)] by auto
next
  case (Cons c cs)
  then have "(x, c) \<in> set (in_edges g c)" by simp
  then have "(x, c) \<in> set (pairs g)" using in_edges_subset by blast
  then have "x \<in> set (nodes g)" using wf_graph_nodes [OF Cons.prems(1)] by auto
  moreover have "set (c # cs @ [b]) \<subseteq> set (nodes g)"
    using Cons.IH [OF Cons.prems(1), of c] Cons.prems(2) by simp
  ultimately show ?case by simp
qed

lemma link_first_edge:
  "link g x cs b \<Longrightarrow> (x, hd (cs @ [b])) \<in> set (pairs g)"
proof -
  assume "link g x cs b"
  then have "(x, hd (cs @ [b])) \<in> set (in_edges g (hd (cs @ [b])))"
    by (cases cs) simp_all
  then show ?thesis using in_edges_subset by blast
qed

section \<open>Facts about the sample inputs\<close>

lemma sample_states_distinct:
  "st_x \<noteq> st_p" "st_x \<noteq> st_q" "st_x \<noteq> st_y" "st_x \<noteq> st_z"
  "st_p \<noteq> st_q" "st_p \<noteq> st_y" "st_p \<noteq> st_z"
  "st_q \<noteq> st_y" "st_q \<noteq> st_z" "st_y \<noteq> st_z"
  "st_p \<noteq> st_x" "st_q \<noteq> st_x" "st_y \<noteq> st_x" "st_z \<noteq> st_x"
  "st_q \<noteq> st_p" "st_y \<noteq> st_p" "st_z \<noteq> st_p"
  "st_y \<noteq> st_q" "st_z \<noteq> st_q" "st_z \<noteq> st_y"
  by (simp_all add: st_x_def st_p_def st_q_def st_y_def st_z_def)

lemma sample_states_ast:
  "ast_node st_p = Pass" "ast_node st_q = Pass"
  "ast_node st_x \<noteq> Pass" "ast_node st_y \<noteq> Pass" "ast_node st_z \<noteq> Pass"
  by (simp_all add: st_x_def st_p_def st_q_def st_y_def st_z_def)

lemma detour_states_distinct:
  "st_a \<noteq> st_x" "st_x \<noteq> st_a" "st_a \<noteq> st_p" "st_p \<noteq> st_a"
  "st_a \<noteq> st_y" "st_y \<noteq> st_a" "st_a \<noteq> st_q" "st_q \<noteq> st_a"
  "st_b \<noteq> st_x" "st_x \<noteq> st_b" "st_b \<noteq> st_p" "st_p \<noteq> st_b"
  "st_b \<noteq> st_y" "st_y \<noteq> st_b" "st_b \<noteq> st_q" "st_q \<noteq> st_b"
  "st_c \<noteq> st_x" "st_x \<noteq> st_c" "st_c \<noteq> st_p" "st_p \<noteq> st_c"
  "st_c \<noteq> st_y" "st_y \<noteq> st_c" "st_c \<noteq> st_q" "st_q \<noteq> st_c"
  "st_a \<noteq> st_b" "st_a \<noteq> st_c" "st_b \<noteq> st_a" "st_b \<noteq> st_c"
  "st_c \<noteq> st_a" "st_c \<noteq> st_b"
  by (simp_all add: st_x_def st_p_def st_q_def st_y_def st_a_def st_b_def st_c_def)

lemma detour_states_ast:
  "ast_node st_a \<noteq> Pass" "ast_node st_b \<noteq> Pass" "ast_node st_c \<noteq> Pass"
  by (simp_all add: st_a_def st_b_def st_c_def)

lemmas graph_eval =
  shape_def state_edges_def out_edges_def in_edges_def successors_def edge_attrs_def
  add_edge_def add_node_def has_edge_def remove_edge_def remove_node_def Let_def
  sample_states_distinct sample_states_ast

section \<open>The Pass state's result and result path\<close>

text \<open>
  Claim C7. Let \<open>source\<close> be the value node that \<open>_parse_result\<close> reads from the origin of a
  Pass state. When \<open>source\<close> is not a literal, or its value does not pass \<open>json.dumps\<close>,
  \<open>_parse_result\<close> fails with \<open>UnsupportedOperation\<close> carrying the state's syntax node;
  when \<open>source\<close> is a literal whose value is JSON-serializable, \<open>_parse_result\<close> returns
  that value.
\<close>

theorem parse_result_literal:
  assumes "result_source (ast_node self) = Inr source"
  shows "(literal_eval source = None \<or> (\<exists>v. literal_eval source = Some v \<and> \<not> json_dumps_ok v)
            \<longrightarrow> parse_result self =
                  Inl (UnsupportedOperation
                    ''Only JSON-serializeable values can be used to update the data object''
                    (StmtNode (ast_node self))))
       \<and> (\<forall>v. literal_eval source = Some v \<and> json_dumps_ok v \<longrightarrow> parse_result self = Inr v)"
  using assms by (auto simp: parse_result_def)

theorem parse_result_literal_witness:
  "parse_result \<lparr>name = ''s'', ast_node = Assign [data_x] (List [Constant (CInt 1), Constant CNone])\<rparr>
     = Inr (PyList [PyInt 1, PyNone])
   \<and> parse_result \<lparr>name = ''s'', ast_node = Assign [data_x] (Name ''y'')\<rparr>
     = Inl (UnsupportedOperation
              ''Only JSON-serializeable values can be used to update the data object''
              (StmtNode (Assign [data_x] (Name ''y''))))
   \<and> parse_result \<lparr>name = ''s'', ast_node = Assign [data_x] (Set [Constant (CInt 1)])\<rparr>
     = Inl (UnsupportedOperation
              ''Only JSON-serializeable values can be used to update the data object''
              (StmtNode (Assign [data_x] (Set [Constant (CInt 1)]))))"
  using
    parse_result_literal [of "\<lparr>name = ''s'', ast_node = Assign [data_x] (List [Constant (CInt 1), Constant CNone])\<rparr>"
      "List [Constant (CInt 1), Constant CNone]"]
    parse_result_literal [of "\<lparr>name = ''s'', ast_node = Assign [data_x] (Name ''y'')\<rparr>" "Name ''y''"]
    parse_result_literal [of "\<lparr>name = ''s'', ast_node = Assign [data_x] (Set [Constant (CInt 1)])\<rparr>"
      "Set [Constant (CInt 1)]"]
  by (simp add: literal_eval_def)

text \<open>
  Claim C6. For an assignment whose target converts to \<open>path\<close>: when the reserved-key
  pattern matches \<open>path\<close>, \<open>_parse_result_path\<close> fails with \<open>UnsupportedOperation\<close> whose
  message lists the reserved keys, and so does serialization once the assigned value has
  been parsed; when the pattern does not match, \<open>_parse_result_path\<close> returns \<open>path\<close> and
  serialization succeeds with \<open>ResultPath\<close> set to it.
\<close>

theorem parse_result_path_reserved:
  assumes "ast_node self = Assign (target # targets) val"
      and "convert_input_data_ref E target = Inr path"
  shows "parse_result_path E self =
           (if invalid_result_path E path
            then Inl (UnsupportedOperation
                   (''Task result path is invalid. Check that it does not contain reserved keys: ''
                      @ join '', '' (RESERVED_INPUT_DATA_KEYS E))
                   (StmtNode (ast_node self)))
            else Inr path)
       \<and> (\<forall>result. parse_result self = Inr result \<longrightarrow>
            to_dict E g self =
              (if invalid_result_path E path
               then Inl (UnsupportedOperation
                      (''Task result path is invalid. Check that it does not contain reserved keys: ''
                         @ join '', '' (RESERVED_INPUT_DATA_KEYS E))
                      (StmtNode (ast_node self)))
               else Inr (set_end_or_next g self
                      [(PyStr ''Type'', PyStr ''Pass''), (PyStr ''Result'', result),
                       (PyStr ''ResultPath'', PyStr path)])))"
  using assms
  by (auto simp: parse_result_path_def to_dict_def assert_supported_operation_def)

theorem parse_result_path_reserved_witness:
  "parse_result_path sample_env
     \<lparr>name = ''s'', ast_node = Assign [data_Result] (Constant (CInt 1))\<rparr>
     = Inl (UnsupportedOperation
         ''Task result path is invalid. Check that it does not contain reserved keys: Result, ResultPath''
         (StmtNode (Assign [data_Result] (Constant (CInt 1)))))
   \<and> parse_result_path sample_env
        \<lparr>name = ''s'', ast_node = Assign [data_foo_bar] (Constant (CInt 1))\<rparr>
     = Inr (''$['' @ [CHR 0x27] @ ''foo'' @ [CHR 0x27] @ '']['' @ [CHR 0x27] @ ''bar'' @ [CHR 0x27] @ '']'')"
  using
    parse_result_path_reserved [of "\<lparr>name = ''s'', ast_node = Assign [data_Result] (Constant (CInt 1))\<rparr>"
      data_Result "[]" "Constant (CInt 1)" sample_env
      "''$['' @ [CHR 0x27] @ ''Result'' @ [CHR 0x27] @ '']''" g_serialize]
    parse_result_path_reserved [of "\<lparr>name = ''s'', ast_node = Assign [data_foo_bar] (Constant (CInt 1))\<rparr>"
      data_foo_bar "[]" "Constant (CInt 1)" sample_env
      "''$['' @ [CHR 0x27] @ ''foo'' @ [CHR 0x27] @ '']['' @ [CHR 0x27] @ ''bar'' @ [CHR 0x27] @ '']''"
      g_serialize]
  by (simp add: sample_env_def data_Result_def data_foo_bar_def lower_def)

section \<open>Serialization of a Pass state\<close>

text \<open>
  Claim C4. For an assignment \<open>target = val\<close> where \<open>val\<close> is a literal with the
  JSON-serializable value \<open>v\<close> and the path derived from \<open>target\<close> does not match the
  reserved-key pattern, \<open>to_dict\<close> returns the dict with exactly \<open>Type\<close> \<open>Pass\<close>,
  \<open>Result\<close> \<open>v\<close> and \<open>ResultPath\<close> the derived path, handed to the End/Next linkage.
\<close>

theorem to_dict_assign:
  assumes "ast_node self = Assign (target # targets) val"
      and "literal_eval val = Some v" and "json_dumps_ok v"
      and "convert_input_data_ref E target = Inr path"
      and "\<not> invalid_result_path E path"
  shows "to_dict E g self =
           Inr (set_end_or_next g self
                  [(PyStr ''Type'', PyStr ''Pass''), (PyStr ''Result'', v),
                   (PyStr ''ResultPath'', PyStr path)])"
  using assms
  by (simp add: to_dict_def parse_result_def parse_result_path_def assert_supported_operation_def)

theorem to_dict_assign_witness:
  "to_dict sample_env g_serialize st_x =
     Inr [(PyStr ''Type'', PyStr ''Pass''), (PyStr ''Result'', PyInt 1),
          (PyStr ''ResultPath'', PyStr (''$['' @ [CHR 0x27] @ ''x'' @ [CHR 0x27] @ '']'')),
          (PyStr ''Next'', PyStr ''y'')]
   \<and> to_dict sample_env g_serialize st_y =
     Inr [(PyStr ''Type'', PyStr ''Pass''), (PyStr ''Result'', PyDict [(PyStr ''a'', PyInt 2)]),
          (PyStr ''ResultPath'', PyStr (''$['' @ [CHR 0x27] @ ''y'' @ [CHR 0x27] @ '']'')),
          (PyStr ''End'', PyBool True)]"
  using
    to_dict_assign [of st_x data_x "[]" "Constant (CInt 1)" "PyInt 1" sample_env
      "''$['' @ [CHR 0x27] @ ''x'' @ [CHR 0x27] @ '']''" g_serialize]
    to_dict_assign [of st_y data_y "[]" "Dict [Some (Constant (CStr ''a''))] [Constant (CInt 2)]"
      "PyDict [(PyStr ''a'', PyInt 2)]" sample_env
      "''$['' @ [CHR 0x27] @ ''y'' @ [CHR 0x27] @ '']''" g_serialize]
  by (simp add: sample_env_def st_x_def st_y_def st_update_def st_p_def data_x_def data_y_def
        literal_eval_def lower_def g_serialize_def set_end_or_next_def state_edges_def
        out_edges_def no_attrs_def)

text \<open>
  Claim C10. For a Pass state whose origin is neither \<open>pass\<close> nor an assignment and whose
  value is a call with the first argument \<open>arg\<close>, a literal with the JSON-serializable value
  \<open>v\<close>: \<open>to_dict\<close> sets \<open>Result\<close> to \<open>v\<close> and \<open>ResultPath\<close> to \<open>$\<close>.
\<close>

theorem to_dict_call:
  assumes "ast_node self \<noteq> Pass"
      and "\<forall>targets val. ast_node self \<noteq> Assign targets val"
      and "result_source (ast_node self) = Inr arg"
      and "literal_eval arg = Some v" and "json_dumps_ok v"
  shows "to_dict E g self =
           Inr (set_end_or_next g self
                  [(PyStr ''Type'', PyStr ''Pass''), (PyStr ''Result'', v),
                   (PyStr ''ResultPath'', PyStr ''$'')])"
  using assms
  by (cases "ast_node self")
     (simp_all add: to_dict_def parse_result_def parse_result_path_def)

theorem to_dict_call_witness:
  "to_dict sample_env g_serialize st_update =
     Inr [(PyStr ''Type'', PyStr ''Pass''),
          (PyStr ''Result'', PyDict [(PyStr ''k'', PyList [PyInt 1, PyInt (- 2)])]),
          (PyStr ''ResultPath'', PyStr ''$''),
          (PyStr ''Next'', PyStr ''p'')]"
  using
    to_dict_call [of st_update
      "Dict [Some (Constant (CStr ''k''))] [List [Constant (CInt 1), UnaryOp USub (Constant (CInt 2))]]"
      "PyDict [(PyStr ''k'', PyList [PyInt 1, PyInt (- 2)])]" sample_env g_serialize]
  by (simp add: st_x_def st_y_def st_update_def st_p_def
        literal_eval_def g_serialize_def set_end_or_next_def state_edges_def
        out_edges_def no_attrs_def)

section \<open>Resource decorators: the subscribe status and the export entry\<close>

text \<open>
  Claim C8. \<open>get_subscribe_status\<close> first extracts a string from the node (an error of the
  extractor is passed on); it returns the string when it is \<open>success\<close> or \<open>failure\<close>, and
  fails for any other string with \<open>UnsupportedOperation\<close> whose message names the allowed
  set and the string provided.
\<close>

theorem get_subscribe_status_spec:
  "get_subscribe_status G node =
     (case get_str G node of
        Inl e \<Rightarrow> Inl e
      | Inr v \<Rightarrow>
          if v = ''success'' \<or> v = ''failure'' then Inr v
          else Inl (UnsupportedOperation
                 (''Status must be one of success|failure. Provided: '' @ v) (ExprNode node)))"
  by (auto simp: get_subscribe_status_def assert_supported_operation_def split: sum.splits)

theorem get_subscribe_status_witness:
  "get_subscribe_status literal_GET_VALUE_MAP (Constant (CStr ''success'')) = Inr ''success''
   \<and> get_subscribe_status literal_GET_VALUE_MAP (Constant (CStr ''failure'')) = Inr ''failure''
   \<and> get_subscribe_status literal_GET_VALUE_MAP (Constant (CStr ''maybe''))
       = Inl (UnsupportedOperation ''Status must be one of success|failure. Provided: maybe''
                (ExprNode (Constant (CStr ''maybe''))))
   \<and> get_subscribe_status literal_GET_VALUE_MAP (Name ''success'')
       = Inl (UnsupportedOperation ''Value must be a string'' (ExprNode (Name ''success'')))"
  using
    get_subscribe_status_spec [of literal_GET_VALUE_MAP "Constant (CStr ''success'')"]
    get_subscribe_status_spec [of literal_GET_VALUE_MAP "Constant (CStr ''failure'')"]
    get_subscribe_status_spec [of literal_GET_VALUE_MAP "Constant (CStr ''maybe'')"]
    get_subscribe_status_spec [of literal_GET_VALUE_MAP "Name ''success''"]
  by (simp add: literal_GET_VALUE_MAP_def)

text \<open>
  Claim C9. The entry of \<open>RESOURCE_DECORATOR_MAP\<close> for \<open>export\<close> has \<open>max_count\<close> 1 and the
  single option \<open>enabled\<close>, whose default is \<open>True\<close>. Under the validator of the
  specification, one \<open>export()\<close> on a function succeeds with \<open>enabled\<close> resolved to \<open>True\<close>,
  and a second \<open>export()\<close> on the same function fails with \<open>UnsupportedOperation\<close>.
\<close>

theorem export_max_count_and_default:
  "(\<exists>config. map_of (RESOURCE_DECORATOR_MAP G) ''export'' = Some config
       \<and> max_count config = Some 1
       \<and> map (\<lambda>ko. (fst ko, default_value (snd ko))) (options config)
           = [(''enabled'', Some (PyBool True))])
   \<and> validate_decorators kind_ok (RESOURCE_DECORATOR_MAP G) []
        [\<lparr>dec_name = ''export'', dec_keywords = [], dec_node = n1\<rparr>]
       = Inr [\<lparr>decorator_name = ''export'', effect_values = [(''enabled'', PyBool True)],
               origin = n1\<rparr>]
   \<and> is_unsupported
        (validate_decorators kind_ok (RESOURCE_DECORATOR_MAP G) []
           [\<lparr>dec_name = ''export'', dec_keywords = [], dec_node = n1\<rparr>,
            \<lparr>dec_name = ''export'', dec_keywords = [], dec_node = n2\<rparr>])"
  by (simp add: RESOURCE_DECORATOR_MAP_def validate_decorator_def resolve_values_def
        List.map_filter_simps is_unsupported_def)

section \<open>Shaping: terminal nodes, idempotence, and a node with two successors\<close>

lemma shape_nodes_keeps_terminal:
  "p \<in> set (nodes g) \<Longrightarrow> out_edges g p = [] \<Longrightarrow> shape_nodes g ns = Inr g' \<Longrightarrow>
     p \<in> set (nodes g') \<and> out_edges g' p = []"
proof (induction ns arbitrary: g)
  case Nil
  then show ?case by simp
next
  case (Cons s ns)
  obtain g1 where sh: "shape g s = Inr g1" and rest: "shape_nodes g1 ns = Inr g'"
    using Cons.prems(3) by (auto split: sum.splits)
  have "p \<in> set (nodes g1) \<and> out_edges g1 p = []"
  proof (cases "elidable g s")
    case False
    then show ?thesis using sh shape_not_elidable [OF False] Cons.prems by simp
  next
    case True
    then have "s \<noteq> p" using Cons.prems(2) by (auto simp: elidable_def)
    then show ?thesis
      using shape_elidable [OF sh True] Cons.prems(1,2) unfolding out_edges_Nil_iff by auto
  qed
  then show ?case using Cons.IH [OF _ _ rest] by simp
qed

lemma to_dict_terminal_pass:
  "ast_node p = Pass \<Longrightarrow> out_edges g p = [] \<Longrightarrow>
     to_dict E g p = Inr [(PyStr ''Type'', PyStr ''Pass''), (PyStr ''End'', PyBool True)]"
  by (simp add: to_dict_def set_end_or_next_def state_edges_def)

text \<open>
  Claim C3. For a Pass node \<open>p\<close> whose origin is \<open>pass\<close> and which has no outgoing edge:
  \<open>shape\<close> returns the graph as it is; \<open>to_dict\<close> gives exactly \<open>Type: Pass\<close> and the
  terminal linkage \<open>End: true\<close>, with no \<open>Result\<close> and no \<open>ResultPath\<close>; and whichever nodes
  are shaped after that, \<open>p\<close> stays in the graph, stays without outgoing edges and
  serializes in the same way.
\<close>

theorem terminal_pass_kept:
  assumes "ast_node p = Pass" and "out_edges g p = []"
  shows "shape g p = Inr g
       \<and> to_dict E g p = Inr [(PyStr ''Type'', PyStr ''Pass''), (PyStr ''End'', PyBool True)]
       \<and> (\<forall>ns g'. p \<in> set (nodes g) \<and> shape_nodes g ns = Inr g' \<longrightarrow>
            p \<in> set (nodes g') \<and> out_edges g' p = []
            \<and> to_dict E g' p = Inr [(PyStr ''Type'', PyStr ''Pass''), (PyStr ''End'', PyBool True)])"
proof -
  have "\<not> elidable g p" using assms by (simp add: elidable_def)
  then have a: "shape g p = Inr g" by (rule shape_not_elidable)
  have b: "to_dict E g p = Inr [(PyStr ''Type'', PyStr ''Pass''), (PyStr ''End'', PyBool True)]"
    by (rule to_dict_terminal_pass [OF assms])
  have c: "p \<in> set (nodes g') \<and> out_edges g' p = []
           \<and> to_dict E g' p = Inr [(PyStr ''Type'', PyStr ''Pass''), (PyStr ''End'', PyBool True)]"
    if "p \<in> set (nodes g)" and "shape_nodes g ns = Inr g'" for ns g'
    using shape_nodes_keeps_terminal [OF that(1) assms(2) that(2)]
      to_dict_terminal_pass [OF assms(1), of g' E] by simp
  show ?thesis using a b c by blast
qed

theorem terminal_pass_kept_witness:
  "ast_node st_p = Pass \<and> out_edges g_serialize st_p = []
   \<and> shape g_serialize st_p = Inr g_serialize
   \<and> to_dict sample_env g_serialize st_p
       = Inr [(PyStr ''Type'', PyStr ''Pass''), (PyStr ''End'', PyBool True)]
   \<and> shaping_pass g_serialize = Inr g_serialize"
proof -
  have o: "out_edges g_serialize st_p = []"
    by (simp add: g_serialize_def out_edges_def st_x_def st_update_def st_p_def)
  have s: "shaping_pass g_serialize = Inr g_serialize"
    by (simp add: shaping_pass_def g_serialize_def shape_def state_edges_def out_edges_def
          st_x_def st_y_def st_update_def st_p_def)
  show ?thesis
    using terminal_pass_kept [OF sample_states_ast(1) o, of sample_env] o s
    by (simp add: sample_states_ast)
qed

text \<open>
  Claim C5. When the shaping pass over a well-formed graph has completed, no elidable Pass
  node is left: \<open>shape\<close> returns the graph as it is for every node that remains, and a
  second shaping pass returns the shaped graph itself.
\<close>

theorem shaping_pass_idempotent:
  assumes wf: "wf_graph g" and sh: "shaping_pass g = Inr g'"
  shows "shaping_pass g' = Inr g'
         \<and> (\<forall>n\<in>set (nodes g'). \<not> elidable g' n \<and> shape g' n = Inr g')"
proof -
  have "shape_nodes g (nodes g) = Inr g'" using sh by (simp add: shaping_pass_def)
  from shape_nodes_settled [OF wf this, of "\<lambda>n. False"]
  have sub: "set (nodes g') \<subseteq> set (nodes g)"
    and st: "\<forall>n. n \<in> set (nodes g) \<and> n \<in> set (nodes g') \<longrightarrow> \<not> elidable g' n"
    by simp_all
  have all: "\<forall>n\<in>set (nodes g'). \<not> elidable g' n" using sub st by blast
  then show ?thesis
    by (simp add: shaping_pass_def shape_nodes_fixed shape_not_elidable)
qed

theorem shaping_pass_idempotent_witness:
  "wf_graph g_chain \<and> shaping_pass g_chain = Inr g_chain_shaped
   \<and> shaping_pass g_chain_shaped = Inr g_chain_shaped
   \<and> shape g_chain_shaped st_x = Inr g_chain_shaped
   \<and> shape g_chain_shaped st_y = Inr g_chain_shaped"
proof -
  have wf: "wf_graph g_chain"
    by (simp add: wf_graph_def pairs_def g_chain_def sample_states_distinct)
  have sh: "shaping_pass g_chain = Inr g_chain_shaped"
    by (simp add: shaping_pass_def g_chain_def g_chain_shaped_def graph_eval)
  have nd: "nodes g_chain_shaped = [st_x, st_y]" by (simp add: g_chain_shaped_def)
  show ?thesis
    using shaping_pass_idempotent [OF wf sh] wf sh by (simp add: nd)
qed

text \<open>
  Claim C2, evaluated where it fails. \<open>p\<close> originates from \<open>pass\<close> and has one incoming
  edge, from \<open>x\<close>, and two outgoing edges, to \<open>y\<close> and \<open>z\<close>. The graph is well-formed and
  \<open>p\<close> is elidable, and \<open>shape\<close> ends in the \<open>NetworkXError\<close> of \<open>remove_edge\<close>: the
  incoming edge is noted for removal once per successor and removed twice.
\<close>

theorem shape_two_successors_raises:
  "wf_graph g_two_exits \<and> elidable g_two_exits st_p
   \<and> in_edges g_two_exits st_p = [(st_x, st_p)]
   \<and> successors g_two_exits st_p = Inr [st_y, st_z]
   \<and> shape g_two_exits st_p = Inl NetworkXError"
proof -
  have "wf_graph g_two_exits"
    by (simp add: wf_graph_def pairs_def g_two_exits_def sample_states_distinct)
  moreover have "elidable g_two_exits st_p"
    by (simp add: elidable_def out_edges_def g_two_exits_def sample_states_distinct
          sample_states_ast)
  moreover have "in_edges g_two_exits st_p = [(st_x, st_p)]"
    by (simp add: in_edges_def g_two_exits_def sample_states_distinct)
  moreover have "successors g_two_exits st_p = Inr [st_y, st_z]"
    by (simp add: successors_def out_edges_def g_two_exits_def sample_states_distinct)
  moreover have "shape g_two_exits st_p = Inl NetworkXError"
    by (simp add: g_two_exits_def graph_eval)
  ultimately show ?thesis by simp
qed

theorem shape_two_successors_raises_witness:
  "\<exists>e. shape g_two_exits st_p = Inl e"
  using shape_two_successors_raises by blast

section \<open>Elision of a chain of \<open>pass\<close> nodes\<close>

text \<open>
  Where no \<open>pass\<close> node of a well-formed graph has more than one outgoing edge, the pass
  elides a chain as intended. Let the graph contain a chain
  \<open>A \<rightarrow> c\<^sub>1 \<rightarrow> \<dots> \<rightarrow> c\<^sub>k \<rightarrow> B\<close> with \<open>k \<ge> 0\<close>: the \<open>c\<^sub>i\<close> are distinct nodes that originate
  from \<open>pass\<close>, each has the node before it as its only predecessor, \<open>c\<^sub>k\<close> (or \<open>A\<close> when
  \<open>k = 0\<close>) is the only predecessor of \<open>B\<close>, and \<open>A\<close> and \<open>B\<close> are not elidable. Then the
  shaping pass over the nodes of the graph, in whatever order they are stored, completes;
  in the shaped graph the one edge into \<open>B\<close> comes from \<open>A\<close> and carries the attributes
  \<open>a\<close> of the edge that left \<open>A\<close> for the chain, \<open>A\<close> and \<open>B\<close> are still nodes and no
  \<open>c\<^sub>i\<close> is.
\<close>

lemma single_exit_chain_elision:
  assumes wf: "wf_graph g" and se: "single_exit g"
    and l: "link g A cs B" and d: "distinct (cs @ [B])"
    and A: "\<not> elidable g A" and B: "\<not> elidable g B"
    and at: "edge_attrs g A (hd (cs @ [B])) = Some a"
  shows "\<exists>g'. shaping_pass g = Inr g'
           \<and> in_edges g' B = [(A, B)]
           \<and> edge_attrs g' A B = Some a
           \<and> A \<in> set (nodes g') \<and> B \<in> set (nodes g')
           \<and> set cs \<inter> set (nodes g') = {}"
proof -
  have "A \<in> fst ` set (pairs g)" using link_first_edge [OF l] by force
  then have Ap: "ast_node A \<noteq> Pass"
    using A unfolding elidable_def out_edges_Nil_iff by auto
  have nds: "set (A # cs @ [B]) \<subseteq> set (nodes g)" by (rule link_nodes [OF wf l])
  have inv: "chain_inv g A cs B a"
    unfolding chain_inv_def using wf se l d Ap B at nds by simp
  have sub: "set cs \<subseteq> set (nodes g)" using nds by auto
  have dn: "distinct (nodes g)" using wf by (simp add: wf_graph_def)
  obtain g' where r: "shape_nodes g (nodes g) = Inr g'" and inv': "chain_inv g' A [] B a"
    and nd: "set (nodes g') \<subseteq> set (nodes g) - set cs"
    using chain_shape_nodes [OF inv sub dn] by blast
  have "in_edges g' B = [(A, B)]" "edge_attrs g' A B = Some a"
    "A \<in> set (nodes g')" "B \<in> set (nodes g')"
    using inv' by (simp_all add: chain_inv_def)
  moreover have "set cs \<inter> set (nodes g') = {}" using nd by auto
  ultimately show ?thesis using r by (auto simp: shaping_pass_def)
qed

lemma single_exit_chain_elision_example:
  "wf_graph g_chain \<and> single_exit g_chain
   \<and> link g_chain st_x [st_p, st_q] st_y \<and> distinct ([st_p, st_q] @ [st_y])
   \<and> \<not> elidable g_chain st_x \<and> \<not> elidable g_chain st_y
   \<and> edge_attrs g_chain st_x (hd ([st_p, st_q] @ [st_y])) = Some cond_attrs
   \<and> shaping_pass g_chain = Inr g_chain_shaped
   \<and> in_edges g_chain_shaped st_y = [(st_x, st_y)]
   \<and> edge_attrs g_chain_shaped st_x st_y = Some cond_attrs
   \<and> nodes g_chain_shaped = [st_x, st_y]
   \<and> link g_chain_shaped st_x [] st_y
   \<and> shaping_pass g_chain_shaped = Inr g_chain_shaped"
proof -
  have wf: "wf_graph g_chain"
    by (simp add: wf_graph_def pairs_def g_chain_def sample_states_distinct)
  have se: "single_exit g_chain"
    by (simp add: single_exit_def out_edges_def g_chain_def sample_states_distinct
          sample_states_ast)
  have l: "link g_chain st_x [st_p, st_q] st_y"
    by (simp add: in_edges_def g_chain_def sample_states_distinct sample_states_ast)
  have d: "distinct ([st_p, st_q] @ [st_y])"
    by (simp add: sample_states_distinct)
  have A: "\<not> elidable g_chain st_x" and B: "\<not> elidable g_chain st_y"
    by (simp_all add: elidable_def sample_states_ast)
  have at: "edge_attrs g_chain st_x (hd ([st_p, st_q] @ [st_y])) = Some cond_attrs"
    by (simp add: edge_attrs_def g_chain_def sample_states_distinct)
  have sh: "shaping_pass g_chain = Inr g_chain_shaped"
    by (simp add: shaping_pass_def g_chain_def g_chain_shaped_def graph_eval)
  have nd: "nodes g_chain_shaped = [st_x, st_y]" by (simp add: g_chain_shaped_def)
  have wf0: "wf_graph g_chain_shaped"
    by (simp add: wf_graph_def pairs_def g_chain_shaped_def sample_states_distinct)
  have se0: "single_exit g_chain_shaped"
    by (simp add: single_exit_def g_chain_shaped_def sample_states_ast)
  have l0: "link g_chain_shaped st_x [] st_y"
    by (simp add: in_edges_def g_chain_shaped_def)
  have d0: "distinct ([] @ [st_y])" by simp
  have A0: "\<not> elidable g_chain_shaped st_x" and B0: "\<not> elidable g_chain_shaped st_y"
    by (simp_all add: elidable_def sample_states_ast)
  have at0: "edge_attrs g_chain_shaped st_x (hd ([] @ [st_y])) = Some cond_attrs"
    by (simp add: edge_attrs_def g_chain_shaped_def)
  have sh0: "shaping_pass g_chain_shaped = Inr g_chain_shaped"
    by (simp add: shaping_pass_def g_chain_shaped_def shape_def sample_states_ast)
  show ?thesis
    using single_exit_chain_elision [OF wf se l d A B at]
      single_exit_chain_elision [OF wf0 se0 l0 d0 A0 B0 at0]
      wf se l d A B at sh nd l0 sh0 by auto
qed

text \<open>
  Claim C1, evaluated where it fails. The graph is well-formed and contains the chain
  \<open>x \<rightarrow> p \<rightarrow> y\<close>: \<open>p\<close> is an elidable \<open>pass\<close> node whose only predecessor is \<open>x\<close>, \<open>p\<close> is the
  only predecessor of \<open>y\<close>, \<open>x\<close> and \<open>y\<close> are retained, and the edge from \<open>x\<close> carries a
  branch condition. Apart from the chain, the \<open>pass\<close> node \<open>q\<close> has the predecessor \<open>a\<close> and
  the two successors \<open>b\<close> and \<open>c\<close>. The shaping pass does not produce the edge from \<open>x\<close> to
  \<open>y\<close>: it ends in the \<open>NetworkXError\<close> that \<open>shape\<close> raises at \<open>q\<close>, where the incoming
  edge is noted for removal once per successor and removed twice.
\<close>

theorem shaping_pass_chain_raises:
  "wf_graph g_detour
   \<and> link g_detour st_x [st_p] st_y \<and> distinct ([st_p] @ [st_y])
   \<and> elidable g_detour st_p \<and> \<not> elidable g_detour st_x \<and> \<not> elidable g_detour st_y
   \<and> edge_attrs g_detour st_x st_p = Some cond_attrs
   \<and> in_edges g_detour st_q = [(st_a, st_q)]
   \<and> successors g_detour st_q = Inr [st_b, st_c]
   \<and> shaping_pass g_detour = Inl NetworkXError"
proof -
  have "wf_graph g_detour"
    by (simp add: wf_graph_def pairs_def g_detour_def sample_states_distinct
          detour_states_distinct)
  moreover have "link g_detour st_x [st_p] st_y"
    by (simp add: in_edges_def g_detour_def sample_states_distinct detour_states_distinct
          sample_states_ast)
  moreover have "distinct ([st_p] @ [st_y])"
    by (simp add: sample_states_distinct)
  moreover have "elidable g_detour st_p" "\<not> elidable g_detour st_x" "\<not> elidable g_detour st_y"
    by (simp_all add: elidable_def out_edges_def g_detour_def sample_states_ast
          sample_states_distinct detour_states_distinct)
  moreover have "edge_attrs g_detour st_x st_p = Some cond_attrs"
    by (simp add: edge_attrs_def g_detour_def sample_states_distinct)
  moreover have "in_edges g_detour st_q = [(st_a, st_q)]"
    by (simp add: in_edges_def g_detour_def sample_states_distinct detour_states_distinct)
  moreover have "successors g_detour st_q = Inr [st_b, st_c]"
    by (simp add: successors_def out_edges_def g_detour_def sample_states_distinct
          detour_states_distinct)
  moreover have "shaping_pass g_detour = Inl NetworkXError"
    by (simp add: shaping_pass_def g_detour_def graph_eval detour_states_distinct
          detour_states_ast)
  ultimately show ?thesis by simp
qed

theorem shaping_pass_chain_raises_witness:
  "\<exists>e. shaping_pass g_detour = Inl e"
  using shaping_pass_chain_raises by blast


end
